theory Spec2Isabelle
  imports Complex_Main
begin

section \<open>Arrays and the numeric library\<close>

text \<open>
  The program is a Python class over numpy arrays. A one-dimensional array is a list of
  reals, a two-dimensional array the list of its rows. Python floats are idealised as
  real numbers: every statement below is about exact arithmetic. Every exception the
  source can raise is a value of \<open>error\<close>: numpy raises \<open>ValueError\<close> on
  incompatible shapes, scipy's \<open>inv\<close> raises \<open>LinAlgError\<close> on a singular matrix and
  a float division by zero raises \<open>ZeroDivisionError\<close>.
\<close>

type_synonym vec = "real list"
type_synonym mat = "real list list"

datatype error = ValueError | LinAlgError | ZeroDivisionError

definition bind_r :: "error + 'a \<Rightarrow> ('a \<Rightarrow> error + 'b) \<Rightarrow> error + 'b" where
  "bind_r r f = (case r of Inl e \<Rightarrow> Inl e | Inr a \<Rightarrow> f a)"

definition is_mat :: "nat \<Rightarrow> nat \<Rightarrow> mat \<Rightarrow> bool" where
  "is_mat r c A = (length A = r \<and> list_all (\<lambda>row. length row = c) A)"

definition ncols :: "mat \<Rightarrow> nat" where
  "ncols A = (case A of [] \<Rightarrow> 0 | row # _ \<Rightarrow> length row)"

subsection \<open>Exact linear algebra on lists\<close>

definition dot :: "vec \<Rightarrow> vec \<Rightarrow> real" where
  "dot x y = sum_list (map2 (*) x y)"

definition mv :: "mat \<Rightarrow> vec \<Rightarrow> vec" where
  "mv A x = map (\<lambda>row. dot row x) A"

definition col :: "mat \<Rightarrow> nat \<Rightarrow> vec" where
  "col A j = map (\<lambda>row. row ! j) A"

definition tr :: "mat \<Rightarrow> mat" where
  "tr A = map (col A) [0..<ncols A]"

definition mm :: "mat \<Rightarrow> mat \<Rightarrow> mat" where
  "mm A B = map (mv (tr B)) A"

definition eye :: "nat \<Rightarrow> mat" where
  "eye n = map (\<lambda>i. map (\<lambda>j. if i = j then 1 else 0) [0..<n]) [0..<n]"

definition scale :: "real \<Rightarrow> vec \<Rightarrow> vec" where
  "scale c x = map ((*) c) x"

definition vadd :: "vec \<Rightarrow> vec \<Rightarrow> vec" where
  "vadd x y = map2 (+) x y"

definition vsub :: "vec \<Rightarrow> vec \<Rightarrow> vec" where
  "vsub x y = map2 (-) x y"

definition madd :: "mat \<Rightarrow> mat \<Rightarrow> mat" where
  "madd A B = map2 vadd A B"

definition msub :: "mat \<Rightarrow> mat \<Rightarrow> mat" where
  "msub A B = map2 vsub A B"

subsection \<open>numpy's operators, with their shape checks\<close>

text \<open>
  \<open>A @ x\<close> and \<open>A @ B\<close> raise \<open>ValueError\<close> unless the inner dimensions agree.
  \<open>+\<close> and \<open>-\<close> work elementwise and broadcast: two arrays of the same rank are
  compatible when, in every dimension, their sizes are equal or one of them is 1.
\<close>

definition matmul_mv :: "mat \<Rightarrow> vec \<Rightarrow> error + vec" where
  "matmul_mv A x =
     (if list_all (\<lambda>row. length row = length x) A then Inr (mv A x) else Inl ValueError)"

definition matmul :: "mat \<Rightarrow> mat \<Rightarrow> error + mat" where
  "matmul A B =
     (if list_all (\<lambda>row. length row = length B) A then Inr (mm A B) else Inl ValueError)"

definition bdim :: "nat \<Rightarrow> nat \<Rightarrow> nat" where
  "bdim a b = (if a = 1 then b else a)"

definition bidx :: "nat \<Rightarrow> nat \<Rightarrow> nat" where
  "bidx a i = (if a = 1 then 0 else i)"

definition compatible :: "nat \<Rightarrow> nat \<Rightarrow> bool" where
  "compatible a b = (a = b \<or> a = 1 \<or> b = 1)"

definition broadcast1 :: "(real \<Rightarrow> real \<Rightarrow> real) \<Rightarrow> vec \<Rightarrow> vec \<Rightarrow> error + vec" where
  "broadcast1 f x y =
     (let a = length x; b = length y in
      if compatible a b
      then Inr (map (\<lambda>i. f (x ! bidx a i) (y ! bidx b i)) [0..<bdim a b])
      else Inl ValueError)"

definition broadcast2 :: "(real \<Rightarrow> real \<Rightarrow> real) \<Rightarrow> mat \<Rightarrow> mat \<Rightarrow> error + mat" where
  "broadcast2 f A B =
     (let r1 = length A; r2 = length B; c1 = ncols A; c2 = ncols B in
      if compatible r1 r2 \<and> compatible c1 c2
      then Inr (map (\<lambda>i. map (\<lambda>j. f (A ! bidx r1 i ! bidx c1 j) (B ! bidx r2 i ! bidx c2 j))
                             [0..<bdim c1 c2])
                    [0..<bdim r1 r2])
      else Inl ValueError)"

definition np_add1 :: "vec \<Rightarrow> vec \<Rightarrow> error + vec" where
  "np_add1 = broadcast1 (+)"

definition np_sub1 :: "vec \<Rightarrow> vec \<Rightarrow> error + vec" where
  "np_sub1 = broadcast1 (-)"

definition np_add2 :: "mat \<Rightarrow> mat \<Rightarrow> error + mat" where
  "np_add2 = broadcast2 (+)"

definition np_sub2 :: "mat \<Rightarrow> mat \<Rightarrow> error + mat" where
  "np_sub2 = broadcast2 (-)"

text \<open>
  \<open>np.array(rows).reshape((k, c))\<close>: the rows must have one length; the entries are
  laid out again in \<open>k\<close> rows of \<open>c\<close>. A count of \<open>-1\<close> is inferred from the size,
  any other negative count is refused.
\<close>

definition chunks :: "nat \<Rightarrow> nat \<Rightarrow> vec \<Rightarrow> mat" where
  "chunks k c flat = map (\<lambda>i. take c (drop (i * c) flat)) [0..<k]"

definition reshape :: "int \<Rightarrow> nat \<Rightarrow> mat \<Rightarrow> error + mat" where
  "reshape k c A =
     (if \<not> list_all (\<lambda>row. length row = ncols A) A then Inl ValueError
      else let flat = concat A; sz = length flat in
        if k = - 1 then
          (if c = 0 \<or> sz mod c \<noteq> 0 then Inl ValueError else Inr (chunks (sz div c) c flat))
        else if k < 0 then Inl ValueError
        else if int sz = k * int c then Inr (chunks (nat k) c flat)
        else Inl ValueError)"

subsection \<open>scipy.linalg.inv\<close>

text \<open>
  \<open>inv\<close> refuses a matrix that is not square (\<open>ValueError\<close>) and raises \<open>LinAlgError\<close>
  when the elimination meets a column without pivot. It is modelled by Gauss-Jordan
  elimination on the matrix extended by the identity, in exact arithmetic.
\<close>

fun find_pivot :: "nat \<Rightarrow> mat \<Rightarrow> nat \<Rightarrow> nat option" where
  "find_pivot j [] p = None"
| "find_pivot j (row # rows) p = (if row ! j \<noteq> 0 then Some p else find_pivot j rows (Suc p))"

definition gj_step :: "nat \<Rightarrow> mat \<Rightarrow> mat option" where
  "gj_step j M =
     (case find_pivot j (drop j M) j of
        None \<Rightarrow> None
      | Some p \<Rightarrow>
          (let M1 = M[j := M ! p, p := M ! j];
               prow = scale (1 / (M1 ! j ! j)) (M1 ! j)
           in Some (map (\<lambda>i. if i = j then prow else vsub (M1 ! i) (scale (M1 ! i ! j) prow))
                        [0..<length M])))"

fun gj_loop :: "nat \<Rightarrow> nat \<Rightarrow> mat \<Rightarrow> mat option" where
  "gj_loop 0 j M = Some M"
| "gj_loop (Suc k) j M =
     (case gj_step j M of None \<Rightarrow> None | Some M' \<Rightarrow> gj_loop k (Suc j) M')"

definition inv_m :: "mat \<Rightarrow> error + mat" where
  "inv_m A =
     (let n = length A in
      if \<not> is_mat n n A then Inl ValueError
      else case gj_loop n 0 (map2 (@) A (eye n)) of
             None \<Rightarrow> Inl LinAlgError
           | Some M \<Rightarrow> Inr (map (drop n) M))"

subsection \<open>numpy.random\<close>

text \<open>
  The random source is an input of the model: a draw is the deviation of the sample from
  its mean, supplied by the caller for every step (and, for a vector, every component).
  \<open>multivariate_normal(mean, cov)\<close> raises \<open>ValueError\<close> unless \<open>cov\<close> is square of the
  length of \<open>mean\<close>; \<open>normal(loc, scale)\<close> raises it for a negative scale.
\<close>

definition multivariate_normal :: "vec \<Rightarrow> mat \<Rightarrow> (nat \<Rightarrow> real) \<Rightarrow> error + vec" where
  "multivariate_normal mean cov xi =
     (if is_mat (length mean) (length mean) cov
      then Inr (map (\<lambda>i. mean ! i + xi i) [0..<length mean])
      else Inl ValueError)"

definition normal :: "real \<Rightarrow> real \<Rightarrow> real \<Rightarrow> error + real" where
  "normal loc sd xi = (if sd < 0 then Inl ValueError else Inr (loc + xi))"

section \<open>The class KalmanFilter\<close>

text \<open>
  The constructor stores its arguments. With \<open>one_d = False\<close> the parameters are
  matrices and a vector, with \<open>one_d = True\<close> they are floats; every method has one
  branch for each, modelled by one function for each (the scalar ones end in \<open>_1d\<close>).
\<close>

record ('m, 'v) KalmanFilter =
  F :: 'm
  Q :: 'm
  H :: 'm
  R :: 'm
  u :: 'v

subsection \<open>evolve\<close>

fun evolve_loop ::
  "(mat, vec) KalmanFilter \<Rightarrow> (nat \<Rightarrow> nat \<Rightarrow> real) \<Rightarrow> (nat \<Rightarrow> nat \<Rightarrow> real) \<Rightarrow> nat \<Rightarrow> nat \<Rightarrow>
     vec \<Rightarrow> vec list \<Rightarrow> vec list \<Rightarrow> error + (vec list \<times> vec list)" where
  "evolve_loop M w v t 0 x0 x z = Inr (x, z)"
| "evolve_loop M w v t (Suc n) x0 x z =
     bind_r (multivariate_normal [0, 0, 0, 0] (Q M) (w t)) (\<lambda>wt.
     bind_r (multivariate_normal [0, 0] (R M) (v t)) (\<lambda>vt.
     bind_r (matmul_mv (F M) x0) (\<lambda>Fx.
     bind_r (np_add1 Fx (u M)) (\<lambda>Fxu.
     bind_r (np_add1 Fxu wt) (\<lambda>x1.
     bind_r (matmul_mv (H M) x0) (\<lambda>Hx.
     bind_r (np_add1 Hx vt) (\<lambda>z1.
     evolve_loop M w v (Suc t) n x1 (x @ [x1]) (z @ [z1]))))))))"

definition evolve ::
  "(mat, vec) KalmanFilter \<Rightarrow> (nat \<Rightarrow> nat \<Rightarrow> real) \<Rightarrow> (nat \<Rightarrow> nat \<Rightarrow> real) \<Rightarrow> vec \<Rightarrow> int \<Rightarrow>
     error + (vec list \<times> vec list)" where
  "evolve M w v x0 N = evolve_loop M w v 0 (nat N) x0 [x0] []"

text \<open>The scalar branch never assigns \<open>x0\<close> in its loop.\<close>

fun evolve_1d_loop ::
  "(real, real) KalmanFilter \<Rightarrow> (nat \<Rightarrow> real) \<Rightarrow> (nat \<Rightarrow> real) \<Rightarrow> nat \<Rightarrow> nat \<Rightarrow>
     real \<Rightarrow> real list \<Rightarrow> real list \<Rightarrow> error + (real list \<times> real list)" where
  "evolve_1d_loop M w v t 0 x0 x z = Inr (x, z)"
| "evolve_1d_loop M w v t (Suc n) x0 x z =
     bind_r (normal 0 (Q M) (w t)) (\<lambda>wt.
     bind_r (normal 0 (R M) (v t)) (\<lambda>vt.
       let x1 = F M * x0 + u M + wt;
           z1 = H M * x0 + vt
       in evolve_1d_loop M w v (Suc t) n x0 (x @ [x1]) (z @ [z1])))"

definition evolve_1d ::
  "(real, real) KalmanFilter \<Rightarrow> (nat \<Rightarrow> real) \<Rightarrow> (nat \<Rightarrow> real) \<Rightarrow> real \<Rightarrow> int \<Rightarrow>
     error + (real list \<times> real list)" where
  "evolve_1d M w v x0 N = evolve_1d_loop M w v 0 (nat N) x0 [x0] []"

subsection \<open>estimate\<close>

definition estimate_body ::
  "(mat, vec) KalmanFilter \<Rightarrow> mat \<Rightarrow> vec \<Rightarrow> mat \<Rightarrow> vec \<Rightarrow> error + (vec \<times> mat)" where
  "estimate_body M I x0 P0 zi =
     bind_r (matmul_mv (F M) x0) (\<lambda>Fx.
     bind_r (np_add1 Fx (u M)) (\<lambda>new_x.
     bind_r (matmul (F M) P0) (\<lambda>FP.
     bind_r (matmul FP (tr (F M))) (\<lambda>FPF.
     bind_r (np_add2 FPF (Q M)) (\<lambda>new_P.
     bind_r (matmul_mv (H M) new_x) (\<lambda>Hx.
     bind_r (np_sub1 zi Hx) (\<lambda>y_t.
     bind_r (matmul (H M) new_P) (\<lambda>HP.
     bind_r (matmul HP (tr (H M))) (\<lambda>HPH.
     bind_r (np_add2 HPH (R M)) (\<lambda>Sk.
     bind_r (matmul new_P (tr (H M))) (\<lambda>PH.
     bind_r (inv_m Sk) (\<lambda>Si.
     bind_r (matmul PH Si) (\<lambda>Kk.
     bind_r (matmul_mv Kk y_t) (\<lambda>Ky.
     bind_r (np_add1 new_x Ky) (\<lambda>final_x.
     bind_r (matmul Kk (H M)) (\<lambda>KH.
     bind_r (np_sub2 I KH) (\<lambda>IKH.
     bind_r (matmul IKH new_P) (\<lambda>final_P.
     Inr (final_x, final_P)))))))))))))))))))"

fun estimate_loop ::
  "(mat, vec) KalmanFilter \<Rightarrow> mat \<Rightarrow> vec \<Rightarrow> mat \<Rightarrow> vec list \<Rightarrow> vec list \<Rightarrow> mat list \<Rightarrow>
     error + (vec list \<times> mat list)" where
  "estimate_loop M I x0 P0 [] out P = Inr (out, P)"
| "estimate_loop M I x0 P0 (zi # zs) out P =
     bind_r (estimate_body M I x0 P0 zi) (\<lambda>(final_x, final_P).
     estimate_loop M I final_x final_P zs (out @ [final_x]) (P @ [final_P]))"

definition estimate ::
  "(mat, vec) KalmanFilter \<Rightarrow> vec \<Rightarrow> mat \<Rightarrow> vec list \<Rightarrow> error + (vec list \<times> mat list)" where
  "estimate M x0 P0 z = estimate_loop M (eye (length P0)) x0 P0 z [] []"

definition estimate_1d_body ::
  "(real, real) KalmanFilter \<Rightarrow> real \<Rightarrow> real \<Rightarrow> real \<Rightarrow> error + (real \<times> real)" where
  "estimate_1d_body M x0 P0 zi =
     (let new_x = F M * x0 + u M;
          new_P = (F M)\<^sup>2 * P0 + Q M;
          y_t = zi - H M * new_x;
          Sk = (H M)\<^sup>2 * new_P + R M
      in if Sk = 0 then Inl ZeroDivisionError
         else let Kk = new_P * H M * (1 / Sk);
                  final_x = new_x + Kk * y_t;
                  final_P = (1 - Kk * H M) * new_P
              in Inr (final_x, final_P))"

fun estimate_1d_loop ::
  "(real, real) KalmanFilter \<Rightarrow> real \<Rightarrow> real \<Rightarrow> real list \<Rightarrow> real list \<Rightarrow> real list \<Rightarrow>
     error + (real list \<times> real list)" where
  "estimate_1d_loop M x0 P0 [] out P = Inr (out, P)"
| "estimate_1d_loop M x0 P0 (zi # zs) out P =
     bind_r (estimate_1d_body M x0 P0 zi) (\<lambda>(final_x, final_P).
     estimate_1d_loop M final_x final_P zs (out @ [final_x]) (P @ [final_P]))"

definition estimate_1d ::
  "(real, real) KalmanFilter \<Rightarrow> real \<Rightarrow> real \<Rightarrow> real list \<Rightarrow> error + (real list \<times> real list)" where
  "estimate_1d M x0 P0 z = estimate_1d_loop M x0 P0 z [] []"

subsection \<open>predict\<close>

fun predict_loop :: "(mat, vec) KalmanFilter \<Rightarrow> nat \<Rightarrow> vec list \<Rightarrow> error + vec list" where
  "predict_loop M 0 new_x = Inr new_x"
| "predict_loop M (Suc n) new_x =
     bind_r (matmul_mv (F M) (last new_x)) (\<lambda>Fx.
     bind_r (np_add1 Fx (u M)) (\<lambda>x1.
     predict_loop M n (new_x @ [x1])))"

definition predict :: "(mat, vec) KalmanFilter \<Rightarrow> vec \<Rightarrow> int \<Rightarrow> error + mat" where
  "predict M x k =
     bind_r (predict_loop M (nat (k - 1)) [x]) (\<lambda>new_x. reshape k (length x) new_x)"

fun predict_1d_loop :: "(real, real) KalmanFilter \<Rightarrow> nat \<Rightarrow> real list \<Rightarrow> real list" where
  "predict_1d_loop M 0 new_x = new_x"
| "predict_1d_loop M (Suc n) new_x = predict_1d_loop M n (new_x @ [F M * last new_x + u M])"

definition predict_1d :: "(real, real) KalmanFilter \<Rightarrow> real \<Rightarrow> int \<Rightarrow> real list" where
  "predict_1d M x k = predict_1d_loop M (nat (k - 1)) [x]"

subsection \<open>rewind\<close>

fun rewind_loop :: "(mat, vec) KalmanFilter \<Rightarrow> nat \<Rightarrow> vec list \<Rightarrow> error + vec list" where
  "rewind_loop M 0 new_x = Inr new_x"
| "rewind_loop M (Suc n) new_x =
     bind_r (inv_m (F M)) (\<lambda>Fi.
     bind_r (np_sub1 (last new_x) (u M)) (\<lambda>d.
     bind_r (matmul_mv Fi d) (\<lambda>x1.
     rewind_loop M n (new_x @ [x1]))))"

definition rewind :: "(mat, vec) KalmanFilter \<Rightarrow> vec \<Rightarrow> int \<Rightarrow> error + mat" where
  "rewind M x k =
     bind_r (rewind_loop M (nat (k - 1)) [x]) (\<lambda>new_x. reshape k (length x) new_x)"

fun rewind_1d_loop :: "(real, real) KalmanFilter \<Rightarrow> nat \<Rightarrow> real list \<Rightarrow> error + real list" where
  "rewind_1d_loop M 0 new_x = Inr new_x"
| "rewind_1d_loop M (Suc n) new_x =
     (if F M = 0 then Inl ZeroDivisionError
      else rewind_1d_loop M n (new_x @ [(1 / F M) * (last new_x - u M)]))"

definition rewind_1d :: "(real, real) KalmanFilter \<Rightarrow> real \<Rightarrow> int \<Rightarrow> error + real list" where
  "rewind_1d M x k = rewind_1d_loop M (nat (k - 1)) [x]"

section \<open>Notions of the specification\<close>

text \<open>The sequence \<open>x, f x, f (f x), ...\<close> of length \<open>k\<close>.\<close>

definition orbit :: "('a \<Rightarrow> 'a) \<Rightarrow> 'a \<Rightarrow> nat \<Rightarrow> 'a list" where
  "orbit f x k = map (\<lambda>i. (f ^^ i) x) [0..<k]"

text \<open>The noise-free transition \<open>F x + u\<close> of the specification, in both modes.\<close>

definition fwd :: "(mat, vec) KalmanFilter \<Rightarrow> vec \<Rightarrow> vec" where
  "fwd M x = vadd (mv (F M) x) (u M)"

definition fwd_1d :: "(real, real) KalmanFilter \<Rightarrow> real \<Rightarrow> real" where
  "fwd_1d M x = F M * x + u M"

text \<open>
  A vector of coefficients times a matrix: the linear combination of the rows. A vector is
  in the span of a matrix when it is such a combination. \<open>unit_cols j\<close> says that the
  first \<open>j\<close> columns are those of the identity.
\<close>

definition vm :: "vec \<Rightarrow> mat \<Rightarrow> vec" where
  "vm c B = mv (tr B) c"

definition in_span :: "mat \<Rightarrow> vec \<Rightarrow> bool" where
  "in_span B r = (\<exists>c. length c = length B \<and> r = vm c B)"

definition unit_cols :: "nat \<Rightarrow> mat \<Rightarrow> bool" where
  "unit_cols j M = (\<forall>i<length M. \<forall>k<j. M ! i ! k = (if i = k then 1 else 0))"

definition zeros :: "nat \<Rightarrow> vec" where
  "zeros n = replicate n 0"

definition zeros_mat :: "nat \<Rightarrow> nat \<Rightarrow> mat" where
  "zeros_mat r c = replicate r (zeros c)"

text \<open>A square matrix is invertible when it has a two-sided inverse.\<close>

definition inverse_of :: "mat \<Rightarrow> mat \<Rightarrow> bool" where
  "inverse_of A B =
     (is_mat (length A) (length A) B \<and> mm B A = eye (length A) \<and> mm A B = eye (length A))"

definition invertible :: "mat \<Rightarrow> bool" where
  "invertible A = (\<exists>B. inverse_of A B)"

section \<open>The simulation of the specification\<close>

text \<open>
  The noise vector of dimension \<open>d\<close> drawn at step \<open>t\<close>; the true states
  \<open>x\<^sub>t\<^sub>+\<^sub>1 = F x\<^sub>t + u + w\<^sub>t\<close>, and the observations, each taken from the state before
  the transition of its step: \<open>z\<^sub>t = H x\<^sub>t + v\<^sub>t\<close> (steps counted from 0).
\<close>

definition noise :: "nat \<Rightarrow> (nat \<Rightarrow> nat \<Rightarrow> real) \<Rightarrow> nat \<Rightarrow> vec" where
  "noise d w t = map (w t) [0..<d]"

primrec sim_state :: "(mat, vec) KalmanFilter \<Rightarrow> (nat \<Rightarrow> vec) \<Rightarrow> vec \<Rightarrow> nat \<Rightarrow> vec" where
  "sim_state M wn x0 0 = x0"
| "sim_state M wn x0 (Suc t) = vadd (fwd M (sim_state M wn x0 t)) (wn t)"

definition sim_obs ::
  "(mat, vec) KalmanFilter \<Rightarrow> (nat \<Rightarrow> vec) \<Rightarrow> (nat \<Rightarrow> vec) \<Rightarrow> vec \<Rightarrow> nat \<Rightarrow> vec" where
  "sim_obs M wn vn x0 t = vadd (mv (H M) (sim_state M wn x0 t)) (vn t)"

text \<open>The backward step \<open>F\<^sup>-\<^sup>1 (x - u)\<close> of the specification, for an inverse \<open>Fi\<close>.\<close>

definition bwd :: "(mat, vec) KalmanFilter \<Rightarrow> mat \<Rightarrow> vec \<Rightarrow> vec" where
  "bwd M Fi x = mv Fi (vsub x (u M))"

definition bwd_1d :: "(real, real) KalmanFilter \<Rightarrow> real \<Rightarrow> real" where
  "bwd_1d M x = (1 / F M) * (x - u M)"

section \<open>The filter recursion of the specification\<close>

text \<open>
  A model of state dimension \<open>n\<close> and observation dimension \<open>m\<close> is well shaped when
  its parameters have the shapes the constructor documents.
\<close>

definition wf_model :: "nat \<Rightarrow> nat \<Rightarrow> (mat, vec) KalmanFilter \<Rightarrow> bool" where
  "wf_model n m M =
     (0 < n \<and> 0 < m \<and> is_mat n n (F M) \<and> is_mat n n (Q M) \<and> is_mat m n (H M) \<and>
      is_mat m m (R M) \<and> length (u M) = n)"

text \<open>
  The steps of the specification, in its words: predict \<open>x\<^sup>- = F x + u\<close> and
  \<open>P\<^sup>- = F P F\<^sup>T + Q\<close>; innovation \<open>y = z - H x\<^sup>-\<close>; innovation covariance
  \<open>S = H P\<^sup>- H\<^sup>T + R\<close>; gain \<open>K = P\<^sup>- H\<^sup>T S\<^sup>-\<^sup>1\<close>; update \<open>x = x\<^sup>- + K y\<close> and
  \<open>P = (I - K H) P\<^sup>-\<close>. The inverse \<open>S\<^sup>-\<^sup>1\<close> is a parameter \<open>Si\<close> of the gain and
  the updates.
\<close>

definition pred_P :: "(mat, vec) KalmanFilter \<Rightarrow> mat \<Rightarrow> mat" where
  "pred_P M P = madd (mm (mm (F M) P) (tr (F M))) (Q M)"

definition innov :: "(mat, vec) KalmanFilter \<Rightarrow> vec \<Rightarrow> vec \<Rightarrow> vec" where
  "innov M x z = vsub z (mv (H M) (fwd M x))"

definition innov_cov :: "(mat, vec) KalmanFilter \<Rightarrow> mat \<Rightarrow> mat" where
  "innov_cov M P = madd (mm (mm (H M) (pred_P M P)) (tr (H M))) (R M)"

definition gain :: "(mat, vec) KalmanFilter \<Rightarrow> mat \<Rightarrow> mat \<Rightarrow> mat" where
  "gain M P Si = mm (mm (pred_P M P) (tr (H M))) Si"

definition upd_x :: "(mat, vec) KalmanFilter \<Rightarrow> vec \<Rightarrow> mat \<Rightarrow> mat \<Rightarrow> vec \<Rightarrow> vec" where
  "upd_x M x P Si z = vadd (fwd M x) (mv (gain M P Si) (innov M x z))"

definition upd_P :: "(mat, vec) KalmanFilter \<Rightarrow> mat \<Rightarrow> mat \<Rightarrow> mat" where
  "upd_P M P Si = mm (msub (eye (length P)) (mm (gain M P Si) (H M))) (pred_P M P)"

text \<open>The same steps on scalars, with \<open>1 / S\<close> for the inverse.\<close>

definition pred_P_1d :: "(real, real) KalmanFilter \<Rightarrow> real \<Rightarrow> real" where
  "pred_P_1d M P = (F M)\<^sup>2 * P + Q M"

definition innov_cov_1d :: "(real, real) KalmanFilter \<Rightarrow> real \<Rightarrow> real" where
  "innov_cov_1d M P = (H M)\<^sup>2 * pred_P_1d M P + R M"

definition gain_1d :: "(real, real) KalmanFilter \<Rightarrow> real \<Rightarrow> real" where
  "gain_1d M P = pred_P_1d M P * H M * (1 / innov_cov_1d M P)"

definition upd_x_1d :: "(real, real) KalmanFilter \<Rightarrow> real \<Rightarrow> real \<Rightarrow> real \<Rightarrow> real" where
  "upd_x_1d M x P z = fwd_1d M x + gain_1d M P * (z - H M * fwd_1d M x)"

definition upd_P_1d :: "(real, real) KalmanFilter \<Rightarrow> real \<Rightarrow> real" where
  "upd_P_1d M P = (1 - gain_1d M P * H M) * pred_P_1d M P"

text \<open>
  The specification's account of \<open>estimate\<close>: the outputs \<open>xs\<close> and \<open>Ps\<close> have one
  entry for each observation, and entry \<open>i\<close> is the update of its predecessor (the
  initial pair for \<open>i = 0\<close>) with observation \<open>i\<close>, where \<open>S\<close> has an inverse.
\<close>

definition kalman_seq ::
  "(mat, vec) KalmanFilter \<Rightarrow> vec \<Rightarrow> mat \<Rightarrow> vec list \<Rightarrow> vec list \<Rightarrow> mat list \<Rightarrow> bool" where
  "kalman_seq M x0 P0 z xs Ps =
     (length xs = length z \<and> length Ps = length z \<and>
      (\<forall>i<length z. \<exists>Si.
         inverse_of (innov_cov M ((P0 # Ps) ! i)) Si \<and>
         xs ! i = upd_x M ((x0 # xs) ! i) ((P0 # Ps) ! i) Si (z ! i) \<and>
         Ps ! i = upd_P M ((P0 # Ps) ! i) Si))"

text \<open>Symmetric positive semi-definite matrices of size \<open>n\<close>.\<close>

definition symmetric :: "mat \<Rightarrow> bool" where
  "symmetric A = (tr A = A)"

definition psd :: "nat \<Rightarrow> mat \<Rightarrow> bool" where
  "psd n A = (\<forall>x. length x = n \<longrightarrow> 0 \<le> dot x (mv A x))"

definition sym_psd :: "nat \<Rightarrow> mat \<Rightarrow> bool" where
  "sym_psd n A = (is_mat n n A \<and> symmetric A \<and> psd n A)"

section \<open>Scalar parameters as matrices\<close>

text \<open>The parameters of a scalar model as \<open>1 \<times> 1\<close> matrices and a vector of length 1.\<close>

definition as_mat :: "(real, real) KalmanFilter \<Rightarrow> (mat, vec) KalmanFilter" where
  "as_mat M = \<lparr>F = [[F M]], Q = [[Q M]], H = [[H M]], R = [[R M]], u = [u M]\<rparr>"

section \<open>Example models\<close>

text \<open>The projectile model of \<open>problem2\<close>, and a scalar model.\<close>

definition proj :: "(mat, vec) KalmanFilter" where
  "proj = \<lparr>F = [[1, 0, 1/10, 0], [0, 1, 0, 1/10], [0, 0, 1, 0], [0, 0, 0, 1]],
           Q = [[1/10, 0, 0, 0], [0, 1/10, 0, 0], [0, 0, 1/10, 0], [0, 0, 0, 1/10]],
           H = [[1, 0, 0, 0], [0, 1, 0, 0]],
           R = [[5000, 0], [0, 5000]],
           u = [0, 0, 0, - (98/100)]\<rparr>"

definition scal :: "(real, real) KalmanFilter" where
  "scal = \<lparr>F = 2, Q = 0, H = 1, R = 0, u = 0\<rparr>"

text \<open>The scalar model as \<open>1 \<times> 1\<close> matrices and a vector of length 1.\<close>

definition scal_mat :: "(mat, vec) KalmanFilter" where
  "scal_mat = \<lparr>F = [[2]], Q = [[0]], H = [[1]], R = [[0]], u = [0]\<rparr>"

text \<open>The projectile without noise: \<open>Q\<close> and \<open>R\<close> are zero.\<close>

definition proj0 :: "(mat, vec) KalmanFilter" where
  "proj0 = proj\<lparr>Q := zeros_mat 4 4, R := zeros_mat 2 2\<rparr>"

text \<open>A position and a velocity, the position observed with unit noise.\<close>

definition cv :: "(mat, vec) KalmanFilter" where
  "cv = \<lparr>F = [[1, 1], [0, 1]], Q = [[0, 0], [0, 0]], H = [[1, 0]], R = [[1]], u = [0, 0]\<rparr>"

text \<open>The same with a transition matrix that has no inverse.\<close>

definition cv_sing :: "(mat, vec) KalmanFilter" where
  "cv_sing = cv\<lparr>F := [[1, 1], [1, 1]]\<rparr>"

text \<open>No noise: every draw is zero.\<close>

text \<open>A scalar model whose innovation covariance is zero from the second step on.\<close>

definition scal1 :: "(real, real) KalmanFilter" where
  "scal1 = \<lparr>F = 1, Q = 0, H = 1, R = 0, u = 1\<rparr>"

definition quiet :: "nat \<Rightarrow> nat \<Rightarrow> real" where
  "quiet t i = 0"

definition quiet_1d :: "nat \<Rightarrow> real" where
  "quiet_1d t = 0"

lemma bind_r_Inl [simp]: "bind_r (Inl e) f = Inl e"
  by (simp add: bind_r_def)

lemma bind_r_Inr [simp]: "bind_r (Inr a) f = f a"
  by (simp add: bind_r_def)

lemma bind_r_eq_Inr: "bind_r r f = Inr b \<longleftrightarrow> (\<exists>a. r = Inr a \<and> f a = Inr b)"
  by (cases r) simp_all

lemma bind_r_eq_Inl: "bind_r r f = Inl e \<longleftrightarrow> r = Inl e \<or> (\<exists>a. r = Inr a \<and> f a = Inl e)"
  by (cases r) simp_all

lemma is_mat_length: "is_mat r c A \<Longrightarrow> length A = r"
  by (simp add: is_mat_def)

lemma is_mat_row: "is_mat r c A \<Longrightarrow> i < r \<Longrightarrow> length (A ! i) = c"
  by (simp add: is_mat_def list_all_length)

lemma is_mat_row_set: "is_mat r c A \<Longrightarrow> row \<in> set A \<Longrightarrow> length row = c"
  by (simp add: is_mat_def list_all_iff)

lemma is_matI: "length A = r \<Longrightarrow> (\<And>i. i < r \<Longrightarrow> length (A ! i) = c) \<Longrightarrow> is_mat r c A"
  by (simp add: is_mat_def list_all_length)

lemma ncols_is_mat: "is_mat r c A \<Longrightarrow> 0 < r \<Longrightarrow> ncols A = c"
  by (cases A) (simp_all add: is_mat_def ncols_def)

lemma vec_eqI: "length x = n \<Longrightarrow> length y = n \<Longrightarrow> (\<And>i. i < n \<Longrightarrow> x ! i = y ! i) \<Longrightarrow> x = y"
  by (simp add: list_eq_iff_nth_eq)

lemma mat_eqI:
  assumes "is_mat r c A" and "is_mat r c B"
    and "\<And>i j. i < r \<Longrightarrow> j < c \<Longrightarrow> A ! i ! j = B ! i ! j"
  shows "A = B"
proof (rule vec_eqI [where n = r])
  show "length A = r" "length B = r"
    using assms(1,2) by (simp_all add: is_mat_length)
  fix i assume "i < r"
  then show "A ! i = B ! i"
    using assms by (intro vec_eqI [where n = c]) (simp_all add: is_mat_row)
qed

lemma dot_sum: "length x = n \<Longrightarrow> length y = n \<Longrightarrow> dot x y = (\<Sum>k<n. x ! k * y ! k)"
  by (simp add: dot_def sum_list_sum_nth atLeast0LessThan)

lemma length_mv [simp]: "length (mv A x) = length A"
  by (simp add: mv_def)

lemma mv_nth: "i < length A \<Longrightarrow> mv A x ! i = dot (A ! i) x"
  by (simp add: mv_def)

lemma mv_entry:
  "is_mat r c A \<Longrightarrow> length x = c \<Longrightarrow> i < r \<Longrightarrow> mv A x ! i = (\<Sum>k<c. A ! i ! k * x ! k)"
  by (simp add: mv_nth is_mat_length is_mat_row dot_sum)

lemma is_mat_tr: "is_mat r c A \<Longrightarrow> 0 < r \<Longrightarrow> is_mat c r (tr A)"
  by (rule is_matI) (simp_all add: tr_def ncols_is_mat col_def is_mat_length)

lemma tr_entry: "is_mat r c A \<Longrightarrow> i < r \<Longrightarrow> j < c \<Longrightarrow> tr A ! j ! i = A ! i ! j"
  by (subgoal_tac "0 < r") (simp_all add: tr_def ncols_is_mat col_def is_mat_length)

lemma is_mat_mm: "is_mat r k A \<Longrightarrow> is_mat k c B \<Longrightarrow> 0 < k \<Longrightarrow> is_mat r c (mm A B)"
  by (rule is_matI) (simp_all add: mm_def is_mat_length is_mat_tr [THEN is_mat_length])

lemma mm_entry:
  assumes "is_mat r k A" "is_mat k c B" "i < r" "j < c" and k: "0 < k"
  shows "mm A B ! i ! j = (\<Sum>l<k. A ! i ! l * B ! l ! j)"
proof -
  have t: "is_mat c k (tr B)"
    using assms(2) k by (rule is_mat_tr)
  have "mm A B ! i ! j = mv (tr B) (A ! i) ! j"
    using assms by (simp add: mm_def is_mat_length)
  also have "\<dots> = (\<Sum>l<k. tr B ! j ! l * A ! i ! l)"
    using t assms by (simp add: mv_entry is_mat_row)
  also have "\<dots> = (\<Sum>l<k. A ! i ! l * B ! l ! j)"
    using assms by (intro sum.cong) (simp_all add: tr_entry mult.commute)
  finally show ?thesis .
qed

lemma is_mat_eye [simp]: "is_mat n n (eye n)"
  by (rule is_matI) (simp_all add: eye_def)

lemma length_eye [simp]: "length (eye n) = n"
  by (simp add: eye_def)

lemma eye_entry: "i < n \<Longrightarrow> j < n \<Longrightarrow> eye n ! i ! j = (if i = j then 1 else 0)"
  by (simp add: eye_def)

lemma length_scale [simp]: "length (scale a x) = length x"
  by (simp add: scale_def)

lemma scale_nth: "i < length x \<Longrightarrow> scale a x ! i = a * x ! i"
  by (simp add: scale_def)

lemma length_vadd: "length (vadd x y) = min (length x) (length y)"
  by (simp add: vadd_def)

lemma vadd_nth: "i < length x \<Longrightarrow> i < length y \<Longrightarrow> vadd x y ! i = x ! i + y ! i"
  by (simp add: vadd_def)

lemma length_vsub: "length (vsub x y) = min (length x) (length y)"
  by (simp add: vsub_def)

lemma vsub_nth: "i < length x \<Longrightarrow> i < length y \<Longrightarrow> vsub x y ! i = x ! i - y ! i"
  by (simp add: vsub_def)

lemma is_mat_madd: "is_mat r c A \<Longrightarrow> is_mat r c B \<Longrightarrow> is_mat r c (madd A B)"
  by (rule is_matI) (simp_all add: madd_def is_mat_length length_vadd is_mat_row)

lemma madd_entry:
  "is_mat r c A \<Longrightarrow> is_mat r c B \<Longrightarrow> i < r \<Longrightarrow> j < c \<Longrightarrow> madd A B ! i ! j = A ! i ! j + B ! i ! j"
  by (simp add: madd_def is_mat_length vadd_nth is_mat_row)

lemma is_mat_msub: "is_mat r c A \<Longrightarrow> is_mat r c B \<Longrightarrow> is_mat r c (msub A B)"
  by (rule is_matI) (simp_all add: msub_def is_mat_length length_vsub is_mat_row)

lemma msub_entry:
  "is_mat r c A \<Longrightarrow> is_mat r c B \<Longrightarrow> i < r \<Longrightarrow> j < c \<Longrightarrow> msub A B ! i ! j = A ! i ! j - B ! i ! j"
  by (simp add: msub_def is_mat_length vsub_nth is_mat_row)

text \<open>checked operators on well-shaped arguments\<close>

lemma matmul_mv_ok: "is_mat r c A \<Longrightarrow> length x = c \<Longrightarrow> matmul_mv A x = Inr (mv A x)"
  by (simp add: matmul_mv_def is_mat_def)

lemma matmul_ok: "is_mat r k A \<Longrightarrow> is_mat k c B \<Longrightarrow> matmul A B = Inr (mm A B)"
  by (simp add: matmul_def is_mat_def)

lemma broadcast1_same:
  assumes "length x = n" "length y = n"
  shows "broadcast1 f x y = Inr (map2 f x y)"
proof -
  have "map (\<lambda>i. f (x ! bidx n i) (y ! bidx n i)) [0..<bdim n n] = map2 f x y"
    using assms by (intro vec_eqI [where n = n]) (auto simp: bdim_def bidx_def)
  with assms show ?thesis
    by (simp add: broadcast1_def compatible_def)
qed

lemma np_add1_ok: "length x = n \<Longrightarrow> length y = n \<Longrightarrow> np_add1 x y = Inr (vadd x y)"
  by (simp add: np_add1_def vadd_def broadcast1_same)

lemma np_sub1_ok: "length x = n \<Longrightarrow> length y = n \<Longrightarrow> np_sub1 x y = Inr (vsub x y)"
  by (simp add: np_sub1_def vsub_def broadcast1_same)

lemma broadcast2_same:
  assumes A: "is_mat r c A" and B: "is_mat r c B"
  shows "broadcast2 f A B = Inr (map2 (map2 f) A B)"
proof (cases "r = 0")
  case True
  with A B show ?thesis
    by (simp add: broadcast2_def is_mat_def compatible_def bdim_def ncols_def)
next
  case False
  then have r: "0 < r" by simp
  have nc: "ncols A = c" "ncols B = c"
    using A B r by (simp_all add: ncols_is_mat)
  have len: "length A = r" "length B = r"
    using A B by (simp_all add: is_mat_length)
  have "map (\<lambda>i. map (\<lambda>j. f (A ! bidx r i ! bidx c j) (B ! bidx r i ! bidx c j)) [0..<bdim c c])
          [0..<bdim r r] = map2 (map2 f) A B"
  proof (rule vec_eqI [where n = r])
    fix i assume i: "i < r"
    have "map (\<lambda>j. f (A ! bidx r i ! bidx c j) (B ! bidx r i ! bidx c j)) [0..<c]
            = map2 f (A ! i) (B ! i)"
      using i A B by (intro vec_eqI [where n = c]) (auto simp: bidx_def is_mat_row)
    then show "map (\<lambda>i. map (\<lambda>j. f (A ! bidx r i ! bidx c j) (B ! bidx r i ! bidx c j)) [0..<bdim c c])
          [0..<bdim r r] ! i = map2 (map2 f) A B ! i"
      using i len by (simp add: bdim_def)
  qed (simp_all add: len bdim_def)
  then show ?thesis
    by (simp add: broadcast2_def len nc compatible_def)
qed

lemma np_add2_ok: "is_mat r c A \<Longrightarrow> is_mat r c B \<Longrightarrow> np_add2 A B = Inr (madd A B)"
  by (simp add: np_add2_def madd_def vadd_def broadcast2_same)

lemma np_sub2_ok: "is_mat r c A \<Longrightarrow> is_mat r c B \<Longrightarrow> np_sub2 A B = Inr (msub A B)"
  by (simp add: np_sub2_def msub_def vsub_def broadcast2_same)

lemma length_orbit [simp]: "length (orbit f x k) = k"
  by (simp add: orbit_def)

lemma orbit_nth [simp]: "i < k \<Longrightarrow> orbit f x k ! i = (f ^^ i) x"
  by (simp add: orbit_def)

lemma orbit_Suc: "orbit f x (Suc k) = x # orbit f (f x) k"
  by (simp add: orbit_def map_upt_Suc funpow_swap1 del: upt_Suc)

lemma orbit_snoc: "orbit f x (Suc k) = orbit f x k @ [(f ^^ k) x]"
  by (simp add: orbit_def)

lemma orbit_step: "Suc i < k \<Longrightarrow> orbit f x k ! Suc i = f (orbit f x k ! i)"
  by simp

lemma last_orbit: "0 < k \<Longrightarrow> last (orbit f x k) = (f ^^ (k - 1)) x"
  by (cases k) (simp_all add: orbit_snoc)

lemma funpow_length:
  fixes f :: "'a list \<Rightarrow> 'a list"
  assumes "\<And>y. length y = n \<Longrightarrow> length (f y) = n" and "length x = n"
  shows "length ((f ^^ i) x) = n"
proof (induction i)
  case 0
  show ?case using assms(2) by simp
next
  case (Suc i)
  show ?case using assms(1) [OF Suc] by simp
qed

lemma is_mat_orbit:
  "(\<And>y. length y = n \<Longrightarrow> length (f y) = n) \<Longrightarrow> length x = n \<Longrightarrow> is_mat k n (orbit f x k)"
  by (rule is_matI) (simp_all add: funpow_length)

lemma chunks_concat: "is_mat k c A \<Longrightarrow> chunks k c (concat A) = A"
proof (induction A arbitrary: k)
  case Nil
  then show ?case by (simp add: chunks_def is_mat_def)
next
  case (Cons row A)
  then obtain k' where k: "k = Suc k'" and row: "length row = c" and A: "is_mat k' c A"
    by (cases k) (auto simp: is_mat_def)
  have "chunks k' c (concat A) = A"
    using Cons.IH A by simp
  then show ?case
    using row unfolding k chunks_def by (simp add: map_upt_Suc del: upt_Suc)
qed

lemma length_concat_is_mat: "is_mat k c A \<Longrightarrow> length (concat A) = k * c"
  by (induction A arbitrary: k) (auto simp: is_mat_def)

lemma reshape_same: "is_mat (nat k) c A \<Longrightarrow> 0 \<le> k \<Longrightarrow> reshape k c A = Inr A"
proof -
  assume A: "is_mat (nat k) c A" and k: "0 \<le> k"
  have "list_all (\<lambda>row. length row = ncols A) A"
    using A by (cases A) (auto simp: is_mat_def ncols_def)
  moreover have "int (length (concat A)) = k * int c"
    using length_concat_is_mat [OF A] k by simp
  ultimately show ?thesis
    using k chunks_concat [OF A] by (simp add: reshape_def Let_def)
qed

lemma length_fwd: "is_mat n n (F M) \<Longrightarrow> length (u M) = n \<Longrightarrow> length (fwd M x) = n"
  by (simp add: fwd_def length_vadd is_mat_length)

lemma predict_loop_orbit:
  assumes "is_mat n n (F M)" "length (u M) = n"
  shows "xs \<noteq> [] \<Longrightarrow> length (last xs) = n \<Longrightarrow> 
    predict_loop M j xs = Inr (xs @ orbit (fwd M) (fwd M (last xs)) j)"
proof (induction j arbitrary: xs)
  case 0
  then show ?case by (simp add: orbit_def)
next
  case (Suc j)
  have "predict_loop M (Suc j) xs = predict_loop M j (xs @ [fwd M (last xs)])"
    using assms Suc.prems
    by (simp add: matmul_mv_ok [OF assms(1)] np_add1_ok [where n = n] is_mat_length fwd_def)
  also have "\<dots> = Inr ((xs @ [fwd M (last xs)]) @ orbit (fwd M) (fwd M (fwd M (last xs))) j)"
    using assms by (subst Suc.IH) (simp_all add: length_fwd)
  finally show ?case
    by (simp add: orbit_Suc)
qed

lemma predict_orbit:
  assumes "is_mat n n (F M)" "length (u M) = n" "length x = n" "1 \<le> k"
  shows "predict M x k = Inr (orbit (fwd M) x (nat k))"
proof -
  have k: "nat k = Suc (nat (k - 1))"
    using assms(4) by simp
  have "predict_loop M (nat (k - 1)) [x] = Inr (orbit (fwd M) x (nat k))"
    using assms by (subst predict_loop_orbit [where n = n]) (simp_all add: k orbit_Suc)
  moreover have "is_mat (nat k) n (orbit (fwd M) x (nat k))"
    using assms by (intro is_mat_orbit) (simp_all add: length_fwd)
  ultimately show ?thesis
    using assms by (simp add: predict_def reshape_same)
qed

lemma predict_1d_loop_orbit:
  "xs \<noteq> [] \<Longrightarrow> predict_1d_loop M j xs = xs @ orbit (fwd_1d M) (fwd_1d M (last xs)) j"
proof (induction j arbitrary: xs)
  case 0
  then show ?case by (simp add: orbit_def)
next
  case (Suc j)
  then show ?case
    by (simp add: orbit_Suc fwd_1d_def)
qed

lemma predict_1d_orbit: "1 \<le> k \<Longrightarrow> predict_1d M x k = orbit (fwd_1d M) x (nat k)"
proof -
  assume "1 \<le> k"
  then have k: "nat k = Suc (nat (k - 1))" by simp
  show ?thesis
    by (simp add: predict_1d_def predict_1d_loop_orbit k orbit_Suc)
qed

text \<open>
  Claim C6. For a state \<open>x\<close> and a horizon \<open>k \<ge> 1\<close>, \<open>predict\<close> returns exactly \<open>k\<close>
  states in forward order: the first is \<open>x\<close> itself and every later one is \<open>F\<close> times
  its predecessor plus \<open>u\<close>. This holds for the matrix branch (on a square \<open>F\<close> and
  matching \<open>u\<close> and \<open>x\<close>) and for the scalar branch.
\<close>

theorem predict_forward_sequence:
  assumes "is_mat n n (F M)" and "length (u M) = n" and "length x = n" and "1 \<le> k"
  shows "(\<exists>xs. predict M x k = Inr xs \<and> length xs = nat k \<and> xs ! 0 = x \<and>
            (\<forall>i. Suc i < nat k \<longrightarrow> xs ! Suc i = vadd (mv (F M) (xs ! i)) (u M))) \<and>
         length (predict_1d M1 x1 k) = nat k \<and> predict_1d M1 x1 k ! 0 = x1 \<and>
         (\<forall>i. Suc i < nat k \<longrightarrow>
            predict_1d M1 x1 k ! Suc i = F M1 * (predict_1d M1 x1 k ! i) + u M1)"
proof -
  have "predict M x k = Inr (orbit (fwd M) x (nat k))"
    using assms by (rule predict_orbit)
  moreover have "orbit (fwd M) x (nat k) ! 0 = x"
    using assms(4) by simp
  ultimately have matrix: "\<exists>xs. predict M x k = Inr xs \<and> length xs = nat k \<and> xs ! 0 = x \<and>
           (\<forall>i. Suc i < nat k \<longrightarrow> xs ! Suc i = vadd (mv (F M) (xs ! i)) (u M))"
    by (simp add: fwd_def [symmetric])
  have "predict_1d M1 x1 k = orbit (fwd_1d M1) x1 (nat k)"
    using assms(4) by (rule predict_1d_orbit)
  moreover have "orbit (fwd_1d M1) x1 (nat k) ! 0 = x1"
    using assms(4) by simp
  ultimately have scalar: "length (predict_1d M1 x1 k) = nat k \<and> predict_1d M1 x1 k ! 0 = x1 \<and>
           (\<forall>i. Suc i < nat k \<longrightarrow>
              predict_1d M1 x1 k ! Suc i = F M1 * (predict_1d M1 x1 k ! i) + u M1)"
    by (simp add: fwd_1d_def)
  from matrix scalar show ?thesis by blast
qed

theorem predict_forward_sequence_witness:
  "is_mat 4 4 (F proj) \<and> length (u proj) = 4 \<and>
   (\<exists>xs. predict proj [0, 0, 300, 600] 3 = Inr xs \<and> length xs = 3 \<and>
         xs ! 0 = [0, 0, 300, 600] \<and> xs ! 2 = vadd (mv (F proj) (xs ! 1)) (u proj)) \<and>
   predict proj [0, 0, 300, 600] 3 =
     Inr [[0, 0, 300, 600], [30, 60, 300, 29951/50], [60, 59951/500, 300, 14951/25]] \<and>
   length (predict_1d scal 1 3) = 3 \<and>
   predict_1d scal 1 3 ! 2 = F scal * (predict_1d scal 1 3 ! 1) + u scal \<and>
   predict_1d scal 1 3 = [1, 2, 4]"
proof -
  have F: "is_mat 4 4 (F proj)" and u: "length (u proj) = 4"
    by (simp_all add: proj_def is_mat_def)
  have x: "length [0, 0, 300, 600 :: real] = 4" and k: "(1::int) \<le> 3"
    by simp_all
  have e1: "predict proj [0, 0, 300, 600] 3 =
     Inr [[0, 0, 300, 600], [30, 60, 300, 29951/50], [60, 59951/500, 300, 14951/25]]"
    by code_simp
  have e2: "predict_1d scal 1 3 = [1, 2, 4]"
    by code_simp
  from predict_forward_sequence [OF F u x k, of scal 1]
  obtain xs where xs: "predict proj [0, 0, 300, 600] 3 = Inr xs" "length xs = nat 3"
      "xs ! 0 = [0, 0, 300, 600]"
    and st: "\<forall>i. Suc i < nat 3 \<longrightarrow> xs ! Suc i = vadd (mv (F proj) (xs ! i)) (u proj)"
    and l1: "length (predict_1d scal 1 3) = nat 3"
    and s1: "\<forall>i. Suc i < nat 3 \<longrightarrow>
               predict_1d scal 1 3 ! Suc i = F scal * (predict_1d scal 1 3 ! i) + u scal"
    by blast
  have "xs ! Suc 1 = vadd (mv (F proj) (xs ! 1)) (u proj)"
    using st by simp
  moreover have "predict_1d scal 1 3 ! Suc 1 = F scal * (predict_1d scal 1 3 ! 1) + u scal"
    using s1 by simp
  ultimately show ?thesis
    using F u xs l1 e1 e2 by (simp add: numeral_2_eq_2)
qed

subsection \<open>Matrix algebra\<close>

lemma mm_assoc:
  assumes A: "is_mat a b A" and B: "is_mat b c B" and C: "is_mat c d C"
    and b: "0 < b" and c: "0 < c"
  shows "mm (mm A B) C = mm A (mm B C)"
proof (rule mat_eqI [where r = a and c = d])
  have AB: "is_mat a c (mm A B)" using A B b by (rule is_mat_mm)
  have BC: "is_mat b d (mm B C)" using B C c by (rule is_mat_mm)
  show "is_mat a d (mm (mm A B) C)" using AB C c by (rule is_mat_mm)
  show "is_mat a d (mm A (mm B C))" using A BC b by (rule is_mat_mm)
  fix i j assume i: "i < a" and j: "j < d"
  have "mm (mm A B) C ! i ! j = (\<Sum>l<c. mm A B ! i ! l * C ! l ! j)"
    using AB C i j c by (rule mm_entry)
  also have "\<dots> = (\<Sum>l<c. (\<Sum>k<b. A ! i ! k * B ! k ! l) * C ! l ! j)"
    using A B i b by (intro sum.cong refl) (simp add: mm_entry)
  also have "\<dots> = (\<Sum>l<c. \<Sum>k<b. A ! i ! k * (B ! k ! l * C ! l ! j))"
    by (simp add: sum_distrib_right mult.assoc)
  also have "\<dots> = (\<Sum>k<b. \<Sum>l<c. A ! i ! k * (B ! k ! l * C ! l ! j))"
    by (rule sum.swap)
  also have "\<dots> = (\<Sum>k<b. A ! i ! k * (\<Sum>l<c. B ! k ! l * C ! l ! j))"
    by (simp add: sum_distrib_left)
  also have "\<dots> = (\<Sum>k<b. A ! i ! k * mm B C ! k ! j)"
    using B C j c by (intro sum.cong refl) (simp add: mm_entry)
  also have "\<dots> = mm A (mm B C) ! i ! j"
    using A BC i j b by (simp add: mm_entry)
  finally show "mm (mm A B) C ! i ! j = mm A (mm B C) ! i ! j" .
qed

lemma mv_mm:
  assumes A: "is_mat a b A" and B: "is_mat b c B" and x: "length x = c" and b: "0 < b"
  shows "mv (mm A B) x = mv A (mv B x)"
proof (rule vec_eqI [where n = a])
  have AB: "is_mat a c (mm A B)" using A B b by (rule is_mat_mm)
  show "length (mv (mm A B) x) = a" using AB by (simp add: is_mat_length)
  show "length (mv A (mv B x)) = a" using A by (simp add: is_mat_length)
  fix i assume i: "i < a"
  have Bx: "length (mv B x) = b" using B by (simp add: is_mat_length)
  have "mv (mm A B) x ! i = (\<Sum>l<c. mm A B ! i ! l * x ! l)"
    using AB x i by (rule mv_entry)
  also have "\<dots> = (\<Sum>l<c. (\<Sum>k<b. A ! i ! k * B ! k ! l) * x ! l)"
    using A B i b by (intro sum.cong refl) (simp add: mm_entry)
  also have "\<dots> = (\<Sum>l<c. \<Sum>k<b. A ! i ! k * (B ! k ! l * x ! l))"
    by (simp add: sum_distrib_right mult.assoc)
  also have "\<dots> = (\<Sum>k<b. \<Sum>l<c. A ! i ! k * (B ! k ! l * x ! l))"
    by (rule sum.swap)
  also have "\<dots> = (\<Sum>k<b. A ! i ! k * (\<Sum>l<c. B ! k ! l * x ! l))"
    by (simp add: sum_distrib_left)
  also have "\<dots> = (\<Sum>k<b. A ! i ! k * mv B x ! k)"
    using B x by (intro sum.cong refl) (simp add: mv_entry)
  also have "\<dots> = mv A (mv B x) ! i"
    using A Bx i by (simp add: mv_entry)
  finally show "mv (mm A B) x ! i = mv A (mv B x) ! i" .
qed

lemma sum_delta_left: "j < n \<Longrightarrow> (\<Sum>k<n. (if j = k then 1 else 0) * f k) = (f (j::nat) :: real)"
proof -
  assume j: "j < n"
  have "(\<Sum>k<n. (if j = k then 1 else 0) * f k) = (\<Sum>k\<in>{..<n}. if k = j then f k else 0)"
    by (intro sum.cong refl) simp
  also have "\<dots> = f j"
    using j by (simp add: sum.delta)
  finally show ?thesis .
qed

lemma sum_delta_right: "j < n \<Longrightarrow> (\<Sum>k<n. f k * (if k = j then 1 else 0)) = (f (j::nat) :: real)"
proof -
  assume j: "j < n"
  have "(\<Sum>k<n. f k * (if k = j then 1 else 0)) = (\<Sum>k\<in>{..<n}. if k = j then f k else 0)"
    by (intro sum.cong refl) simp
  also have "\<dots> = f j"
    using j by (simp add: sum.delta)
  finally show ?thesis .
qed

lemma mm_eye_left: "is_mat r c A \<Longrightarrow> 0 < r \<Longrightarrow> mm (eye r) A = A"
proof (rule mat_eqI [where r = r and c = c])
  assume A: "is_mat r c A" and r: "0 < r"
  show "is_mat r c (mm (eye r) A)" using is_mat_eye A r by (rule is_mat_mm)
  show "is_mat r c A" by (rule A)
  fix i j assume i: "i < r" and j: "j < c"
  have "mm (eye r) A ! i ! j = (\<Sum>l<r. eye r ! i ! l * A ! l ! j)"
    using is_mat_eye A i j r by (rule mm_entry)
  also have "\<dots> = (\<Sum>l<r. (if i = l then 1 else 0) * A ! l ! j)"
    using i by (intro sum.cong refl) (simp add: eye_entry)
  also have "\<dots> = A ! i ! j"
    using i by (rule sum_delta_left)
  finally show "mm (eye r) A ! i ! j = A ! i ! j" .
qed

lemma mm_eye_right: "is_mat r c A \<Longrightarrow> 0 < c \<Longrightarrow> mm A (eye c) = A"
proof (rule mat_eqI [where r = r and c = c])
  assume A: "is_mat r c A" and c: "0 < c"
  show "is_mat r c (mm A (eye c))" using A is_mat_eye c by (rule is_mat_mm)
  show "is_mat r c A" by (rule A)
  fix i j assume i: "i < r" and j: "j < c"
  have "mm A (eye c) ! i ! j = (\<Sum>l<c. A ! i ! l * eye c ! l ! j)"
    using A is_mat_eye i j c by (rule mm_entry)
  also have "\<dots> = (\<Sum>l<c. A ! i ! l * (if l = j then 1 else 0))"
    using j by (intro sum.cong refl) (simp add: eye_entry)
  also have "\<dots> = A ! i ! j"
    using j by (rule sum_delta_right)
  finally show "mm A (eye c) ! i ! j = A ! i ! j" .
qed

lemma mv_eye: "length x = n \<Longrightarrow> mv (eye n) x = x"
proof (rule vec_eqI [where n = n])
  assume x: "length x = n"
  show "length (mv (eye n) x) = n" by simp
  show "length x = n" by (rule x)
  fix i assume i: "i < n"
  have "mv (eye n) x ! i = (\<Sum>k<n. eye n ! i ! k * x ! k)"
    using is_mat_eye x i by (rule mv_entry)
  also have "\<dots> = (\<Sum>k<n. (if i = k then 1 else 0) * x ! k)"
    using i by (intro sum.cong refl) (simp add: eye_entry)
  also have "\<dots> = x ! i"
    using i by (rule sum_delta_left)
  finally show "mv (eye n) x ! i = x ! i" .
qed

lemma mm_madd_right:
  assumes A: "is_mat a b A" and B: "is_mat b c B" and C: "is_mat b c C" and b: "0 < b"
  shows "mm A (madd B C) = madd (mm A B) (mm A C)"
proof (rule mat_eqI [where r = a and c = c])
  have BC: "is_mat b c (madd B C)" using B C by (rule is_mat_madd)
  have AB: "is_mat a c (mm A B)" using A B b by (rule is_mat_mm)
  have AC: "is_mat a c (mm A C)" using A C b by (rule is_mat_mm)
  show "is_mat a c (mm A (madd B C))" using A BC b by (rule is_mat_mm)
  show "is_mat a c (madd (mm A B) (mm A C))" using AB AC by (rule is_mat_madd)
  fix i j assume i: "i < a" and j: "j < c"
  have "mm A (madd B C) ! i ! j = (\<Sum>l<b. A ! i ! l * madd B C ! l ! j)"
    using A BC i j b by (rule mm_entry)
  also have "\<dots> = (\<Sum>l<b. A ! i ! l * B ! l ! j + A ! i ! l * C ! l ! j)"
    using B C j by (intro sum.cong refl) (simp add: madd_entry distrib_left)
  also have "\<dots> = mm A B ! i ! j + mm A C ! i ! j"
    using A B C i j b by (simp add: mm_entry sum.distrib)
  also have "\<dots> = madd (mm A B) (mm A C) ! i ! j"
    using AB AC i j by (simp add: madd_entry)
  finally show "mm A (madd B C) ! i ! j = madd (mm A B) (mm A C) ! i ! j" .
qed

lemma mm_msub_right:
  assumes A: "is_mat a b A" and B: "is_mat b c B" and C: "is_mat b c C" and b: "0 < b"
  shows "mm A (msub B C) = msub (mm A B) (mm A C)"
proof (rule mat_eqI [where r = a and c = c])
  have BC: "is_mat b c (msub B C)" using B C by (rule is_mat_msub)
  have AB: "is_mat a c (mm A B)" using A B b by (rule is_mat_mm)
  have AC: "is_mat a c (mm A C)" using A C b by (rule is_mat_mm)
  show "is_mat a c (mm A (msub B C))" using A BC b by (rule is_mat_mm)
  show "is_mat a c (msub (mm A B) (mm A C))" using AB AC by (rule is_mat_msub)
  fix i j assume i: "i < a" and j: "j < c"
  have "mm A (msub B C) ! i ! j = (\<Sum>l<b. A ! i ! l * msub B C ! l ! j)"
    using A BC i j b by (rule mm_entry)
  also have "\<dots> = (\<Sum>l<b. A ! i ! l * B ! l ! j - A ! i ! l * C ! l ! j)"
    using B C j by (intro sum.cong refl) (simp add: msub_entry right_diff_distrib)
  also have "\<dots> = mm A B ! i ! j - mm A C ! i ! j"
    using A B C i j b by (simp add: mm_entry sum_subtractf)
  also have "\<dots> = msub (mm A B) (mm A C) ! i ! j"
    using AB AC i j by (simp add: msub_entry)
  finally show "mm A (msub B C) ! i ! j = msub (mm A B) (mm A C) ! i ! j" .
qed

lemma mm_msub_left:
  assumes A: "is_mat a b A" and B: "is_mat a b B" and C: "is_mat b c C" and b: "0 < b"
  shows "mm (msub A B) C = msub (mm A C) (mm B C)"
proof (rule mat_eqI [where r = a and c = c])
  have AB: "is_mat a b (msub A B)" using A B by (rule is_mat_msub)
  have AC: "is_mat a c (mm A C)" using A C b by (rule is_mat_mm)
  have BC: "is_mat a c (mm B C)" using B C b by (rule is_mat_mm)
  show "is_mat a c (mm (msub A B) C)" using AB C b by (rule is_mat_mm)
  show "is_mat a c (msub (mm A C) (mm B C))" using AC BC by (rule is_mat_msub)
  fix i j assume i: "i < a" and j: "j < c"
  have "mm (msub A B) C ! i ! j = (\<Sum>l<b. msub A B ! i ! l * C ! l ! j)"
    using AB C i j b by (rule mm_entry)
  also have "\<dots> = (\<Sum>l<b. A ! i ! l * C ! l ! j - B ! i ! l * C ! l ! j)"
    using A B i by (intro sum.cong refl) (simp add: msub_entry left_diff_distrib)
  also have "\<dots> = mm A C ! i ! j - mm B C ! i ! j"
    using A B C i j b by (simp add: mm_entry sum_subtractf)
  also have "\<dots> = msub (mm A C) (mm B C) ! i ! j"
    using AC BC i j by (simp add: msub_entry)
  finally show "mm (msub A B) C ! i ! j = msub (mm A C) (mm B C) ! i ! j" .
qed

subsection \<open>Transposition\<close>

lemma tr_tr: "is_mat r c A \<Longrightarrow> 0 < r \<Longrightarrow> 0 < c \<Longrightarrow> tr (tr A) = A"
proof (rule mat_eqI [where r = r and c = c])
  assume A: "is_mat r c A" and r: "0 < r" and c: "0 < c"
  have t: "is_mat c r (tr A)" using A r by (rule is_mat_tr)
  show "is_mat r c (tr (tr A))" using t c by (rule is_mat_tr)
  show "is_mat r c A" by (rule A)
  fix i j assume "i < r" "j < c"
  then show "tr (tr A) ! i ! j = A ! i ! j"
    using A t by (simp add: tr_entry)
qed

lemma tr_eye: "tr (eye n) = eye n"
proof (cases "n = 0")
  case True
  then show ?thesis by (simp add: eye_def tr_def ncols_def)
next
  case False
  then have n: "0 < n" by simp
  show ?thesis
  proof (rule mat_eqI [where r = n and c = n])
    show "is_mat n n (tr (eye n))" using is_mat_eye n by (rule is_mat_tr)
    show "is_mat n n (eye n)" by simp
    fix i j assume "i < n" "j < n"
    then show "tr (eye n) ! i ! j = eye n ! i ! j"
      by (auto simp: tr_entry [OF is_mat_eye] eye_entry)
  qed
qed

lemma tr_mm:
  assumes A: "is_mat a b A" and B: "is_mat b c B" and a: "0 < a" and b: "0 < b" and c: "0 < c"
  shows "tr (mm A B) = mm (tr B) (tr A)"
proof (rule mat_eqI [where r = c and c = a])
  have AB: "is_mat a c (mm A B)" using A B b by (rule is_mat_mm)
  have tA: "is_mat b a (tr A)" using A a by (rule is_mat_tr)
  have tB: "is_mat c b (tr B)" using B b by (rule is_mat_tr)
  show "is_mat c a (tr (mm A B))" using AB a by (rule is_mat_tr)
  show "is_mat c a (mm (tr B) (tr A))" using tB tA b by (rule is_mat_mm)
  fix i j assume i: "i < c" and j: "j < a"
  have "tr (mm A B) ! i ! j = mm A B ! j ! i"
    using AB j i by (rule tr_entry)
  also have "\<dots> = (\<Sum>l<b. A ! j ! l * B ! l ! i)"
    using A B j i b by (rule mm_entry)
  also have "\<dots> = (\<Sum>l<b. tr B ! i ! l * tr A ! l ! j)"
    using A B i j by (intro sum.cong refl) (simp add: tr_entry mult.commute)
  also have "\<dots> = mm (tr B) (tr A) ! i ! j"
    using tB tA i j b by (simp add: mm_entry)
  finally show "tr (mm A B) ! i ! j = mm (tr B) (tr A) ! i ! j" .
qed

lemma tr_madd:
  assumes A: "is_mat r c A" and B: "is_mat r c B" and r: "0 < r"
  shows "tr (madd A B) = madd (tr A) (tr B)"
proof (rule mat_eqI [where r = c and c = r])
  have AB: "is_mat r c (madd A B)" using A B by (rule is_mat_madd)
  have tA: "is_mat c r (tr A)" using A r by (rule is_mat_tr)
  have tB: "is_mat c r (tr B)" using B r by (rule is_mat_tr)
  show "is_mat c r (tr (madd A B))" using AB r by (rule is_mat_tr)
  show "is_mat c r (madd (tr A) (tr B))" using tA tB by (rule is_mat_madd)
  fix i j assume "i < c" "j < r"
  then show "tr (madd A B) ! i ! j = madd (tr A) (tr B) ! i ! j"
    using A B AB tA tB by (simp add: tr_entry madd_entry)
qed

lemma tr_msub:
  assumes A: "is_mat r c A" and B: "is_mat r c B" and r: "0 < r"
  shows "tr (msub A B) = msub (tr A) (tr B)"
proof (rule mat_eqI [where r = c and c = r])
  have AB: "is_mat r c (msub A B)" using A B by (rule is_mat_msub)
  have tA: "is_mat c r (tr A)" using A r by (rule is_mat_tr)
  have tB: "is_mat c r (tr B)" using B r by (rule is_mat_tr)
  show "is_mat c r (tr (msub A B))" using AB r by (rule is_mat_tr)
  show "is_mat c r (msub (tr A) (tr B))" using tA tB by (rule is_mat_msub)
  fix i j assume "i < c" "j < r"
  then show "tr (msub A B) ! i ! j = msub (tr A) (tr B) ! i ! j"
    using A B AB tA tB by (simp add: tr_entry msub_entry)
qed

subsection \<open>Vectors\<close>

lemma dot_commute: "length x = length y \<Longrightarrow> dot x y = dot y x"
  by (simp add: dot_sum [where n = "length y"] mult.commute)

lemma dot_vadd_left:
  "length x = n \<Longrightarrow> length y = n \<Longrightarrow> length z = n \<Longrightarrow> dot (vadd x y) z = dot x z + dot y z"
  by (simp add: dot_sum [where n = n] length_vadd vadd_nth distrib_right sum.distrib)

lemma mv_madd:
  assumes A: "is_mat r c A" and B: "is_mat r c B" and x: "length x = c"
  shows "mv (madd A B) x = vadd (mv A x) (mv B x)"
proof (rule vec_eqI [where n = r])
  have AB: "is_mat r c (madd A B)" using A B by (rule is_mat_madd)
  show "length (mv (madd A B) x) = r" using AB by (simp add: is_mat_length)
  show "length (vadd (mv A x) (mv B x)) = r" using A B by (simp add: length_vadd is_mat_length)
  fix i assume i: "i < r"
  have "mv (madd A B) x ! i = (\<Sum>k<c. madd A B ! i ! k * x ! k)"
    using AB x i by (rule mv_entry)
  also have "\<dots> = (\<Sum>k<c. A ! i ! k * x ! k + B ! i ! k * x ! k)"
    using A B i by (intro sum.cong refl) (simp add: madd_entry distrib_right)
  also have "\<dots> = mv A x ! i + mv B x ! i"
    using A B x i by (simp add: mv_entry sum.distrib)
  also have "\<dots> = vadd (mv A x) (mv B x) ! i"
    using A B i by (simp add: vadd_nth is_mat_length)
  finally show "mv (madd A B) x ! i = vadd (mv A x) (mv B x) ! i" .
qed

lemma dot_mv_adjoint:
  assumes A: "is_mat r c A" and x: "length x = r" and y: "length y = c" and r: "0 < r"
  shows "dot x (mv A y) = dot (mv (tr A) x) y"
proof -
  have t: "is_mat c r (tr A)" using A r by (rule is_mat_tr)
  have "dot x (mv A y) = (\<Sum>i<r. x ! i * mv A y ! i)"
    using x A by (intro dot_sum) (simp_all add: is_mat_length)
  also have "\<dots> = (\<Sum>i<r. x ! i * (\<Sum>k<c. A ! i ! k * y ! k))"
    using A y by (intro sum.cong refl) (simp add: mv_entry)
  also have "\<dots> = (\<Sum>i<r. \<Sum>k<c. x ! i * A ! i ! k * y ! k)"
    by (simp add: sum_distrib_left mult.assoc)
  also have "\<dots> = (\<Sum>k<c. \<Sum>i<r. x ! i * A ! i ! k * y ! k)"
    by (rule sum.swap)
  also have "\<dots> = (\<Sum>k<c. (\<Sum>i<r. x ! i * A ! i ! k) * y ! k)"
    by (simp add: sum_distrib_right)
  also have "\<dots> = (\<Sum>k<c. (\<Sum>i<r. tr A ! k ! i * x ! i) * y ! k)"
  proof (intro sum.cong refl)
    fix k assume "k \<in> {..<c}"
    then have "(\<Sum>i<r. x ! i * A ! i ! k) = (\<Sum>i<r. tr A ! k ! i * x ! i)"
      using A by (intro sum.cong refl) (simp add: tr_entry mult.commute)
    then show "(\<Sum>i<r. x ! i * A ! i ! k) * y ! k = (\<Sum>i<r. tr A ! k ! i * x ! i) * y ! k"
      by simp
  qed
  also have "\<dots> = (\<Sum>k<c. mv (tr A) x ! k * y ! k)"
    using t x by (intro sum.cong refl) (simp add: mv_entry)
  also have "\<dots> = dot (mv (tr A) x) y"
    using t y by (intro dot_sum [symmetric]) (simp_all add: is_mat_length)
  finally show ?thesis .
qed

subsection \<open>Linear combinations of rows\<close>

lemma length_vm: "is_mat n w B \<Longrightarrow> 0 < n \<Longrightarrow> length (vm c B) = w"
  by (simp add: vm_def is_mat_tr [THEN is_mat_length])

lemma vm_entry:
  assumes B: "is_mat n w B" and n: "0 < n" and c: "length c = n" and j: "j < w"
  shows "vm c B ! j = (\<Sum>l<n. c ! l * B ! l ! j)"
proof -
  have t: "is_mat w n (tr B)" using B n by (rule is_mat_tr)
  have "vm c B ! j = (\<Sum>l<n. tr B ! j ! l * c ! l)"
    unfolding vm_def using t c j by (rule mv_entry)
  also have "\<dots> = (\<Sum>l<n. c ! l * B ! l ! j)"
    using B j by (intro sum.cong refl) (simp add: tr_entry mult.commute)
  finally show ?thesis .
qed

lemma mm_row: "i < length A \<Longrightarrow> mm A B ! i = vm (A ! i) B"
  by (simp add: mm_def vm_def)

lemma vm_eye_row:
  assumes B: "is_mat n w B" and i: "i < n"
  shows "vm (eye n ! i) B = B ! i"
proof (rule vec_eqI [where n = w])
  have n: "0 < n" using i by simp
  show "length (vm (eye n ! i) B) = w" using B n by (rule length_vm)
  show "length (B ! i) = w" using B i by (rule is_mat_row)
  fix j assume j: "j < w"
  have "vm (eye n ! i) B ! j = (\<Sum>l<n. eye n ! i ! l * B ! l ! j)"
    using B n _ j by (rule vm_entry) (simp add: eye_def i)
  also have "\<dots> = (\<Sum>l<n. (if i = l then 1 else 0) * B ! l ! j)"
    using i by (intro sum.cong refl) (simp add: eye_entry)
  also have "\<dots> = B ! i ! j"
    using i by (rule sum_delta_left)
  finally show "vm (eye n ! i) B ! j = B ! i ! j" .
qed

lemma vm_scale:
  assumes B: "is_mat n w B" and n: "0 < n" and c: "length c = n"
  shows "vm (scale a c) B = scale a (vm c B)"
proof (rule vec_eqI [where n = w])
  show "length (vm (scale a c) B) = w" using B n by (rule length_vm)
  show "length (scale a (vm c B)) = w" using B n by (simp add: length_vm)
  fix j assume j: "j < w"
  have "vm (scale a c) B ! j = (\<Sum>l<n. scale a c ! l * B ! l ! j)"
    using B n _ j by (rule vm_entry) (simp add: c)
  also have "\<dots> = (\<Sum>l<n. a * (c ! l * B ! l ! j))"
    using c by (intro sum.cong refl) (simp add: scale_nth mult.assoc)
  also have "\<dots> = a * vm c B ! j"
    using B n c j by (simp add: vm_entry sum_distrib_left)
  also have "\<dots> = scale a (vm c B) ! j"
    using B n j by (simp add: scale_nth length_vm)
  finally show "vm (scale a c) B ! j = scale a (vm c B) ! j" .
qed

lemma vm_vsub:
  assumes B: "is_mat n w B" and n: "0 < n" and c: "length c = n" and d: "length d = n"
  shows "vm (vsub c d) B = vsub (vm c B) (vm d B)"
proof (rule vec_eqI [where n = w])
  show "length (vm (vsub c d) B) = w" using B n by (rule length_vm)
  show "length (vsub (vm c B) (vm d B)) = w" using B n by (simp add: length_vsub length_vm)
  fix j assume j: "j < w"
  have "vm (vsub c d) B ! j = (\<Sum>l<n. vsub c d ! l * B ! l ! j)"
    using B n _ j by (rule vm_entry) (simp add: c d length_vsub)
  also have "\<dots> = (\<Sum>l<n. c ! l * B ! l ! j - d ! l * B ! l ! j)"
    using c d by (intro sum.cong refl) (simp add: vsub_nth left_diff_distrib)
  also have "\<dots> = vm c B ! j - vm d B ! j"
    using B n c d j by (simp add: vm_entry sum_subtractf)
  also have "\<dots> = vsub (vm c B) (vm d B) ! j"
    using B n j by (simp add: vsub_nth length_vm)
  finally show "vm (vsub c d) B ! j = vsub (vm c B) (vm d B) ! j" .
qed

lemma vm_vadd:
  assumes B: "is_mat n w B" and n: "0 < n" and c: "length c = n" and d: "length d = n"
  shows "vm (vadd c d) B = vadd (vm c B) (vm d B)"
proof (rule vec_eqI [where n = w])
  show "length (vm (vadd c d) B) = w" using B n by (rule length_vm)
  show "length (vadd (vm c B) (vm d B)) = w" using B n by (simp add: length_vadd length_vm)
  fix j assume j: "j < w"
  have "vm (vadd c d) B ! j = (\<Sum>l<n. vadd c d ! l * B ! l ! j)"
    using B n _ j by (rule vm_entry) (simp add: c d length_vadd)
  also have "\<dots> = (\<Sum>l<n. c ! l * B ! l ! j + d ! l * B ! l ! j)"
    using c d by (intro sum.cong refl) (simp add: vadd_nth distrib_right)
  also have "\<dots> = vm c B ! j + vm d B ! j"
    using B n c d j by (simp add: vm_entry sum.distrib)
  also have "\<dots> = vadd (vm c B) (vm d B) ! j"
    using B n j by (simp add: vadd_nth length_vm)
  finally show "vm (vadd c d) B ! j = vadd (vm c B) (vm d B) ! j" .
qed

lemma in_span_row: "is_mat n w B \<Longrightarrow> i < n \<Longrightarrow> in_span B (B ! i)"
proof -
  assume B: "is_mat n w B" and i: "i < n"
  have "length (eye n ! i) = length B"
    using B i by (simp add: is_mat_length eye_def)
  moreover have "B ! i = vm (eye n ! i) B"
    using vm_eye_row [OF B i] by simp
  ultimately show ?thesis
    unfolding in_span_def by blast
qed

lemma in_span_scale:
  assumes B: "is_mat n w B" and n: "0 < n" and r: "in_span B r"
  shows "in_span B (scale a r)"
proof -
  from r B obtain c where c: "length c = n" "r = vm c B"
    by (auto simp: in_span_def is_mat_length)
  have "scale a r = vm (scale a c) B"
    using vm_scale [OF B n c(1)] c(2) by simp
  then show ?thesis
    using B c(1) unfolding in_span_def
    by (intro exI [where x = "scale a c"]) (simp add: is_mat_length)
qed

lemma in_span_vsub:
  assumes B: "is_mat n w B" and n: "0 < n" and r: "in_span B r" and s: "in_span B s"
  shows "in_span B (vsub r s)"
proof -
  from r B obtain c where c: "length c = n" "r = vm c B"
    by (auto simp: in_span_def is_mat_length)
  from s B obtain d where d: "length d = n" "s = vm d B"
    by (auto simp: in_span_def is_mat_length)
  have "vsub r s = vm (vsub c d) B"
    using vm_vsub [OF B n c(1) d(1)] c(2) d(2) by simp
  then show ?thesis
    using B c(1) d(1) unfolding in_span_def
    by (intro exI [where x = "vsub c d"]) (simp add: is_mat_length length_vsub)
qed

lemma in_span_vadd:
  assumes B: "is_mat n w B" and n: "0 < n" and r: "in_span B r" and s: "in_span B s"
  shows "in_span B (vadd r s)"
proof -
  from r B obtain c where c: "length c = n" "r = vm c B"
    by (auto simp: in_span_def is_mat_length)
  from s B obtain d where d: "length d = n" "s = vm d B"
    by (auto simp: in_span_def is_mat_length)
  have "vadd r s = vm (vadd c d) B"
    using vm_vadd [OF B n c(1) d(1)] c(2) d(2) by simp
  then show ?thesis
    using B c(1) d(1) unfolding in_span_def
    by (intro exI [where x = "vadd c d"]) (simp add: is_mat_length length_vadd)
qed

lemma vm_mm:
  assumes D: "is_mat a b D" and B: "is_mat b w B" and c: "length c = a"
    and a: "0 < a" and b: "0 < b" and w: "0 < w"
  shows "vm c (mm D B) = vm (vm c D) B"
proof -
  have tB: "is_mat w b (tr B)" using B b by (rule is_mat_tr)
  have tD: "is_mat b a (tr D)" using D a by (rule is_mat_tr)
  have "vm c (mm D B) = mv (mm (tr B) (tr D)) c"
    unfolding vm_def using tr_mm [OF D B a b w] by simp
  also have "\<dots> = mv (tr B) (mv (tr D) c)"
    using tB tD c b by (rule mv_mm)
  finally show ?thesis
    by (simp add: vm_def)
qed

lemma in_span_trans:
  assumes B: "is_mat n w B" and B': "is_mat n' w B'" and n: "0 < n" and n': "0 < n'" and w: "0 < w"
    and rows: "\<And>i. i < n \<Longrightarrow> in_span B' (B ! i)"
    and r: "in_span B r"
  shows "in_span B' r"
proof -
  have "\<forall>i. \<exists>d. i < n \<longrightarrow> length d = n' \<and> B ! i = vm d B'"
    using rows B' by (auto simp: in_span_def is_mat_length)
  then obtain D where D: "\<And>i. i < n \<Longrightarrow> length (D i) = n' \<and> B ! i = vm (D i) B'"
    by metis
  define Dm where "Dm = map D [0..<n]"
  have Dm: "is_mat n n' Dm"
    by (rule is_matI) (simp_all add: Dm_def D)
  have eq: "mm Dm B' = B"
  proof (rule vec_eqI [where n = n])
    show "length (mm Dm B') = n" by (simp add: mm_def Dm_def)
    show "length B = n" using B by (rule is_mat_length)
    fix i assume "i < n"
    then show "mm Dm B' ! i = B ! i"
      using D by (simp add: mm_row Dm_def)
  qed
  from r B obtain c where c: "length c = n" "r = vm c B"
    by (auto simp: in_span_def is_mat_length)
  have "r = vm (vm c Dm) B'"
    using vm_mm [OF Dm B' c(1) n n' w] c(2) eq by simp
  moreover have "length (vm c Dm) = n'"
    using Dm n by (rule length_vm)
  ultimately show ?thesis
    using B' unfolding in_span_def
    by (intro exI [where x = "vm c Dm"]) (simp add: is_mat_length)
qed

lemma scale_scale_inverse: "a \<noteq> 0 \<Longrightarrow> scale a (scale (1 / a) r) = r"
  by (rule vec_eqI [where n = "length r"]) (simp_all add: scale_nth)

lemma vadd_vsub_cancel: "length r = length s \<Longrightarrow> vadd (vsub r s) s = r"
  by (rule vec_eqI [where n = "length r"]) (simp_all add: length_vadd length_vsub vadd_nth vsub_nth)

subsection \<open>One elimination step\<close>

lemma find_pivot_Some:
  "find_pivot j rows q = Some p \<Longrightarrow> q \<le> p \<and> p < q + length rows \<and> rows ! (p - q) ! j \<noteq> 0"
proof (induction rows arbitrary: q)
  case Nil
  then show ?case by simp
next
  case (Cons row rows)
  show ?case
  proof (cases "row ! j \<noteq> 0")
    case True
    with Cons.prems show ?thesis by simp
  next
    case False
    with Cons.prems have "find_pivot j rows (Suc q) = Some p" by simp
    from Cons.IH [OF this] show ?thesis
      by (simp add: Suc_diff_le [symmetric] Suc_le_eq)
  qed
qed

lemma find_pivot_None: "find_pivot j rows q = None \<Longrightarrow> row \<in> set rows \<Longrightarrow> row ! j = 0"
  by (induction rows arbitrary: q) (auto split: if_splits)

lemma gj_step_None:
  assumes "gj_step j M = None" and "j \<le> p" and "p < length M"
  shows "M ! p ! j = 0"
proof -
  have "find_pivot j (drop j M) j = None"
    using assms(1) by (simp add: gj_step_def Let_def split: option.splits)
  moreover have "M ! p \<in> set (drop j M)"
  proof -
    have "drop j M ! (p - j) = M ! p"
      using assms(2,3) by simp
    moreover have "p - j < length (drop j M)"
      using assms(2,3) by simp
    ultimately show ?thesis
      using nth_mem by metis
  qed
  ultimately show ?thesis
    by (rule find_pivot_None)
qed

lemma gj_step_Some:
  assumes step: "gj_step j M = Some M'" and M: "is_mat n w M" and j: "j < n" and jw: "j < w"
  shows "is_mat n w M'"
    and "\<And>i. i < n \<Longrightarrow> in_span M (M' ! i)"
    and "\<And>i. i < n \<Longrightarrow> in_span M' (M ! i)"
    and "unit_cols j M \<Longrightarrow> unit_cols (Suc j) M'"
proof -
  have n: "0 < n" using j by simp
  have len: "length M = n" using M by (rule is_mat_length)
  from step obtain p where piv: "find_pivot j (drop j M) j = Some p"
    by (auto simp: gj_step_def split: option.splits)
  from find_pivot_Some [OF piv] have p: "j \<le> p" "p < n" and "drop j M ! (p - j) ! j \<noteq> 0"
    using len j by auto
  then have a: "M ! p ! j \<noteq> 0"
    using len by simp
  define M1 where "M1 = M[j := M ! p, p := M ! j]"
  define prow where "prow = scale (1 / (M1 ! j ! j)) (M1 ! j)"
  define \<sigma> where "\<sigma> i = (if i = j then p else if i = p then j else i)" for i
  have M': "M' = map (\<lambda>i. if i = j then prow else vsub (M1 ! i) (scale (M1 ! i ! j) prow)) [0..<n]"
    unfolding M1_def prow_def using step piv by (simp add: gj_step_def Let_def len)
  have M1_row: "M1 ! i = M ! \<sigma> i" if "i < n" for i
    using that len p j by (auto simp: M1_def \<sigma>_def nth_list_update)
  have \<sigma>_lt: "\<sigma> i < n" if "i < n" for i
    using that p j by (simp add: \<sigma>_def)
  have \<sigma>_inv: "\<sigma> (\<sigma> i) = i" for i
    by (simp add: \<sigma>_def)
  have M1: "is_mat n w M1"
    using M p j by (intro is_matI) (simp_all add: M1_def len M1_row [unfolded M1_def] \<sigma>_lt is_mat_row)
  have M1_len: "length (M1 ! i) = w" if "i < n" for i
    using M1 that by (rule is_mat_row)
  have a1: "M1 ! j ! j \<noteq> 0"
    using a j by (simp add: M1_row \<sigma>_def)
  have prow_len: "length prow = w"
    using j by (simp add: prow_def M1_len)
  have M'_j: "M' ! j = prow"
    using j by (simp add: M')
  have M'_i: "M' ! i = vsub (M1 ! i) (scale (M1 ! i ! j) prow)" if "i < n" "i \<noteq> j" for i
    using that by (simp add: M')
  show M'_mat: "is_mat n w M'"
    by (rule is_matI) (simp_all add: M' prow_len length_vsub M1_len)
  have M1_in_M: "in_span M (M1 ! i)" if "i < n" for i
    using in_span_row [OF M \<sigma>_lt [OF that]] that by (simp add: M1_row)
  have prow_in_M: "in_span M prow"
    unfolding prow_def using M n M1_in_M [OF j] by (rule in_span_scale)
  show "in_span M (M' ! i)" if "i < n" for i
  proof (cases "i = j")
    case True
    then show ?thesis using prow_in_M M'_j by simp
  next
    case False
    have "in_span M (vsub (M1 ! i) (scale (M1 ! i ! j) prow))"
      using M n M1_in_M [OF that] in_span_scale [OF M n prow_in_M] by (rule in_span_vsub)
    then show ?thesis using M'_i [OF that False] by simp
  qed
  have prow_in_M': "in_span M' prow"
    using in_span_row [OF M'_mat j] M'_j by simp
  have M1_in_M': "in_span M' (M1 ! i)" if "i < n" for i
  proof (cases "i = j")
    case True
    have "scale (M1 ! j ! j) prow = M1 ! j"
      unfolding prow_def using a1 by (rule scale_scale_inverse)
    moreover have "in_span M' (scale (M1 ! j ! j) prow)"
      using M'_mat n prow_in_M' by (rule in_span_scale)
    ultimately show ?thesis using True by simp
  next
    case False
    have "vadd (M' ! i) (scale (M1 ! i ! j) prow) = M1 ! i"
      unfolding M'_i [OF that False]
      by (rule vadd_vsub_cancel) (simp add: M1_len that prow_len)
    moreover have "in_span M' (vadd (M' ! i) (scale (M1 ! i ! j) prow))"
      using M'_mat n in_span_row [OF M'_mat that] in_span_scale [OF M'_mat n prow_in_M']
      by (rule in_span_vadd)
    ultimately show ?thesis by simp
  qed
  show "in_span M' (M ! i)" if "i < n" for i
    using M1_in_M' [OF \<sigma>_lt [OF that]] M1_row [OF \<sigma>_lt [OF that]] by (simp add: \<sigma>_inv)
  show "unit_cols (Suc j) M'" if uc: "unit_cols j M"
    unfolding unit_cols_def
  proof (intro allI impI)
    fix i k assume "i < length M'" and k: "k < Suc j"
    then have i: "i < n" using M'_mat by (simp add: is_mat_length)
    have kw: "k < w" using k jw by simp
    have old: "M ! i' ! k' = (if i' = k' then 1 else 0)" if "i' < n" "k' < j" for i' k'
      using uc that by (simp add: unit_cols_def len)
    have M1_old: "M1 ! i' ! k' = (if i' = k' then 1 else 0)" if "i' < n" "k' < j" for i' k'
      using old [OF \<sigma>_lt [OF that(1)] that(2)] that p by (auto simp: M1_row \<sigma>_def)
    have prow_k: "prow ! k = (if k = j then 1 else 0)"
    proof (cases "k = j")
      case True
      then show ?thesis using a1 jw j by (simp add: prow_def scale_nth M1_len)
    next
      case False
      then have "k < j" using k by simp
      then show ?thesis using M1_old [OF j] kw j by (simp add: prow_def scale_nth M1_len)
    qed
    show "M' ! i ! k = (if i = k then 1 else 0)"
    proof (cases "i = j")
      case True
      then show ?thesis using prow_k M'_j by auto
    next
      case False
      have "M' ! i ! k = M1 ! i ! k - M1 ! i ! j * prow ! k"
        using i kw by (simp add: M'_i [OF i False] vsub_nth scale_nth M1_len prow_len)
      also have "\<dots> = (if i = k then 1 else 0)"
      proof (cases "k = j")
        case True
        then show ?thesis using False prow_k by simp
      next
        case kj: False
        then have "k < j" using k by simp
        then show ?thesis using M1_old [OF i] prow_k kj by simp
      qed
      finally show ?thesis .
    qed
  qed
qed

subsection \<open>The elimination loop\<close>

lemma gj_loop_Some:
  assumes "gj_loop k j M = Some M'" and "is_mat n w M" and "j + k = n" and "n \<le> w"
    and "unit_cols j M" and "is_mat n w M0"
    and "\<And>i. i < n \<Longrightarrow> in_span M0 (M ! i)"
    and "\<And>i. i < n \<Longrightarrow> in_span M (M0 ! i)"
  shows "is_mat n w M' \<and> unit_cols n M' \<and>
         (\<forall>i<n. in_span M0 (M' ! i)) \<and> (\<forall>i<n. in_span M' (M0 ! i))"
  using assms
proof (induction k arbitrary: j M)
  case 0
  then show ?case by simp
next
  case (Suc k)
  from Suc.prems(1) obtain M1 where step: "gj_step j M = Some M1"
    and rest: "gj_loop k (Suc j) M1 = Some M'"
    by (auto split: option.splits)
  have j: "j < n" and jw: "j < w" and n: "0 < n" and w: "0 < w"
    using Suc.prems(3,4) by simp_all
  note M = \<open>is_mat n w M\<close> and M0 = \<open>is_mat n w M0\<close>
  have M1: "is_mat n w M1"
    using step M j jw by (rule gj_step_Some(1))
  have new_old: "in_span M (M1 ! i)" if "i < n" for i
    using step M j jw that by (rule gj_step_Some(2))
  have old_new: "in_span M1 (M ! i)" if "i < n" for i
    using step M j jw that by (rule gj_step_Some(3))
  have uc: "unit_cols (Suc j) M1"
    using step M j jw Suc.prems(5) by (rule gj_step_Some(4))
  have a: "in_span M0 (M1 ! i)" if "i < n" for i
    using M M0 n n w Suc.prems(7) new_old [OF that] by (rule in_span_trans)
  have b: "in_span M1 (M0 ! i)" if "i < n" for i
    using M M1 n n w old_new Suc.prems(8) [OF that] by (rule in_span_trans)
  show ?case
    using rest M1 _ Suc.prems(4) uc M0 a b by (rule Suc.IH) (use Suc.prems(3) in simp)
qed

lemma gj_loop_None:
  assumes "gj_loop k j M = None" and "is_mat n w M" and "j + k = n" and "n \<le> w"
    and "unit_cols j M" and "is_mat n w M0"
    and "\<And>i. i < n \<Longrightarrow> in_span M (M0 ! i)"
  shows "\<exists>j' M'. j' < n \<and> is_mat n w M' \<and> unit_cols j' M' \<and>
           (\<forall>i<n. in_span M' (M0 ! i)) \<and> (\<forall>p. j' \<le> p \<and> p < n \<longrightarrow> M' ! p ! j' = 0)"
  using assms
proof (induction k arbitrary: j M)
  case 0
  then show ?case by simp
next
  case (Suc k)
  have j: "j < n" and jw: "j < w" and n: "0 < n" and w: "0 < w"
    using Suc.prems(3,4) by simp_all
  note M = \<open>is_mat n w M\<close> and M0 = \<open>is_mat n w M0\<close>
  show ?case
  proof (cases "gj_step j M")
    case None
    have "M ! p ! j = 0" if "j \<le> p" "p < n" for p
      using None that M by (intro gj_step_None) (simp_all add: is_mat_length)
    then show ?thesis
      using j M Suc.prems(5,7) by blast
  next
    case (Some M1)
    then have rest: "gj_loop k (Suc j) M1 = None"
      using Suc.prems(1) by simp
    have M1: "is_mat n w M1"
      using Some M j jw by (rule gj_step_Some(1))
    have old_new: "in_span M1 (M ! i)" if "i < n" for i
      using Some M j jw that by (rule gj_step_Some(3))
    have uc: "unit_cols (Suc j) M1"
      using Some M j jw Suc.prems(5) by (rule gj_step_Some(4))
    have b: "in_span M1 (M0 ! i)" if "i < n" for i
      using M M1 n n w old_new Suc.prems(7) [OF that] by (rule in_span_trans)
    show ?thesis
      using rest M1 _ Suc.prems(4) uc M0 b by (rule Suc.IH) (use Suc.prems(3) in simp)
  qed
qed

subsection \<open>Reading the result off the extended matrix\<close>

lemma is_mat_append:
  "is_mat n a X \<Longrightarrow> is_mat n b Y \<Longrightarrow> is_mat n (a + b) (map2 (@) X Y)"
  by (rule is_matI) (simp_all add: is_mat_length is_mat_row)

lemma append_row:
  "is_mat n a X \<Longrightarrow> is_mat n b Y \<Longrightarrow> i < n \<Longrightarrow> map2 (@) X Y ! i = X ! i @ Y ! i"
  by (simp add: is_mat_length)

lemma vm_append:
  assumes X: "is_mat n a X" and Y: "is_mat n b Y" and n: "0 < n" and c: "length c = n"
  shows "vm c (map2 (@) X Y) = vm c X @ vm c Y"
proof (rule vec_eqI [where n = "a + b"])
  have XY: "is_mat n (a + b) (map2 (@) X Y)" using X Y by (rule is_mat_append)
  show "length (vm c (map2 (@) X Y)) = a + b" using XY n by (rule length_vm)
  show "length (vm c X @ vm c Y) = a + b" using X Y n by (simp add: length_vm)
  fix j assume j: "j < a + b"
  have "vm c (map2 (@) X Y) ! j = (\<Sum>l<n. c ! l * map2 (@) X Y ! l ! j)"
    using XY n c j by (rule vm_entry)
  also have "\<dots> = (\<Sum>l<n. c ! l * (X ! l @ Y ! l) ! j)"
    using X Y by (intro sum.cong refl) (simp add: append_row)
  also have "\<dots> = (vm c X @ vm c Y) ! j"
  proof (cases "j < a")
    case True
    have "(\<Sum>l<n. c ! l * (X ! l @ Y ! l) ! j) = (\<Sum>l<n. c ! l * X ! l ! j)"
      using X True by (intro sum.cong refl) (simp add: nth_append is_mat_row)
    then show ?thesis
      using X n c True by (simp add: nth_append length_vm vm_entry)
  next
    case False
    then have jb: "j - a < b" using j by simp
    have "(\<Sum>l<n. c ! l * (X ! l @ Y ! l) ! j) = (\<Sum>l<n. c ! l * Y ! l ! (j - a))"
      using X False by (intro sum.cong refl) (simp add: nth_append is_mat_row)
    then show ?thesis
      using X Y n c False jb by (simp add: nth_append length_vm vm_entry)
  qed
  finally show "vm c (map2 (@) X Y) ! j = (vm c X @ vm c Y) ! j" .
qed

lemma vm_eye: "length c = n \<Longrightarrow> vm c (eye n) = c"
  by (simp add: vm_def tr_eye mv_eye)

lemma is_mat_drop: "is_mat n (a + b) M \<Longrightarrow> is_mat n b (map (drop a) M)"
  by (rule is_matI) (simp_all add: is_mat_length is_mat_row)

lemma is_mat_take: "is_mat n (a + b) M \<Longrightarrow> is_mat n a (map (take a) M)"
  by (rule is_matI) (simp_all add: is_mat_length is_mat_row)

lemma unit_cols_take:
  assumes M: "is_mat n (n + b) M" and uc: "unit_cols n M" and i: "i < n"
  shows "take n (M ! i) = eye n ! i"
proof (rule vec_eqI [where n = n])
  show "length (take n (M ! i)) = n" using M i by (simp add: is_mat_row)
  show "length (eye n ! i) = n" using i by (simp add: eye_def)
  fix k assume "k < n"
  then show "take n (M ! i) ! k = eye n ! i ! k"
    using uc i M by (simp add: unit_cols_def is_mat_length eye_entry)
qed

lemma append_eq_lengthD: "x @ y = x' @ y' \<Longrightarrow> length x = length x' \<Longrightarrow> x = x' \<and> y = y'"
  by simp

lemma gj_result_inverse:
  assumes A: "is_mat n n A" and n: "0 < n"
    and M: "is_mat n (n + n) M" and uc: "unit_cols n M"
    and a: "\<And>i. i < n \<Longrightarrow> in_span (map2 (@) A (eye n)) (M ! i)"
    and b: "\<And>i. i < n \<Longrightarrow> in_span M (map2 (@) A (eye n) ! i)"
  shows "inverse_of A (map (drop n) M)"
proof -
  define Rm where "Rm = map (drop n) M"
  have Rm: "is_mat n n Rm"
    unfolding Rm_def using M by (rule is_mat_drop)
  have M0: "is_mat n (n + n) (map2 (@) A (eye n))"
    using A is_mat_eye by (rule is_mat_append)
  have row: "M ! i = eye n ! i @ Rm ! i" if "i < n" for i
  proof -
    have "M ! i = take n (M ! i) @ drop n (M ! i)" by simp
    then show ?thesis
      using unit_cols_take [OF M uc that] that M by (simp add: Rm_def is_mat_length)
  qed
  have Meq: "M = map2 (@) (eye n) Rm"
  proof (rule vec_eqI [where n = n])
    show "length M = n" using M by (rule is_mat_length)
    show "length (map2 (@) (eye n) Rm) = n" using Rm by (simp add: is_mat_length)
    fix i assume "i < n"
    then show "M ! i = map2 (@) (eye n) Rm ! i"
      using Rm by (simp add: is_mat_length row)
  qed
  have left: "mm Rm A = eye n"
  proof (rule vec_eqI [where n = n])
    show "length (mm Rm A) = n" using Rm by (simp add: mm_def is_mat_length)
    show "length (eye n) = n" by simp
    fix i assume i: "i < n"
    from a [OF i] is_mat_length [OF M0]
    obtain d where d: "length d = n" "M ! i = vm d (map2 (@) A (eye n))"
      unfolding in_span_def by metis
    have "eye n ! i @ Rm ! i = vm d A @ d"
      using d(2) vm_append [OF A is_mat_eye n d(1)] vm_eye [OF d(1)] row [OF i] by simp
    moreover have "length (eye n ! i) = length (vm d A)"
      using A n i by (simp add: length_vm eye_def)
    ultimately have "eye n ! i = vm d A" "Rm ! i = d"
      using append_eq_lengthD by blast+
    then show "mm Rm A ! i = eye n ! i"
      using i Rm by (simp add: mm_row is_mat_length)
  qed
  have right: "mm A Rm = eye n"
  proof (rule vec_eqI [where n = n])
    show "length (mm A Rm) = n" using A by (simp add: mm_def is_mat_length)
    show "length (eye n) = n" by simp
    fix i assume i: "i < n"
    from b [OF i] is_mat_length [OF M]
    obtain c where c: "length c = n" "map2 (@) A (eye n) ! i = vm c M"
      unfolding in_span_def by metis
    have "A ! i @ eye n ! i = c @ vm c Rm"
      using c(2) vm_append [OF is_mat_eye Rm n c(1)] vm_eye [OF c(1)] Meq
        append_row [OF A is_mat_eye i] by simp
    moreover have "length (A ! i) = length c"
      using A i c(1) by (simp add: is_mat_row)
    ultimately have "A ! i = c" "eye n ! i = vm c Rm"
      using append_eq_lengthD by blast+
    then show "mm A Rm ! i = eye n ! i"
      using i A by (simp add: mm_row is_mat_length)
  qed
  show ?thesis
    using Rm left right A by (simp add: inverse_of_def Rm_def is_mat_length)
qed

lemma init_unit_cols: "unit_cols 0 M"
  by (simp add: unit_cols_def)

theorem inv_m_sound:
  assumes A: "is_mat n n A" and inv: "inv_m A = Inr B"
  shows "inverse_of A B"
proof (cases "n = 0")
  case True
  with A inv show ?thesis
    by (auto simp: inv_m_def is_mat_def inverse_of_def mm_def eye_def)
next
  case False
  then have n: "0 < n" by simp
  have len: "length A = n" using A by (rule is_mat_length)
  define M0 where "M0 = map2 (@) A (eye n)"
  have M0: "is_mat n (n + n) M0"
    unfolding M0_def using A is_mat_eye by (rule is_mat_append)
  from inv obtain M where loop: "gj_loop n 0 M0 = Some M" and B: "B = map (drop n) M"
    using A by (auto simp: inv_m_def len M0_def Let_def split: option.splits)
  have self: "in_span M0 (M0 ! i)" if "i < n" for i
    using M0 that by (rule in_span_row)
  have "is_mat n (n + n) M \<and> unit_cols n M \<and>
         (\<forall>i<n. in_span M0 (M ! i)) \<and> (\<forall>i<n. in_span M (M0 ! i))"
    using loop M0 _ _ init_unit_cols M0 self self by (rule gj_loop_Some) simp_all
  then show ?thesis
    unfolding B using A n by (intro gj_result_inverse) (simp_all add: M0_def)
qed

subsection \<open>A column without pivot: the matrix is singular\<close>

lemma sum_split_at:
  fixes f :: "nat \<Rightarrow> real"
  assumes "j < n"
  shows "(\<Sum>k<n. f k) = (\<Sum>k<j. f k) + f j + (\<Sum>k = Suc j..<n. f k)"
proof -
  have "(\<Sum>k<n. f k) = (\<Sum>k = 0..<Suc j. f k) + (\<Sum>k = Suc j..<n. f k)"
    using assms by (simp add: sum.atLeastLessThan_concat atLeast0LessThan [symmetric] del: sum.op_ivl_Suc)
  then show ?thesis
    by (simp add: atLeast0LessThan)
qed

lemma zeros_nth: "i < n \<Longrightarrow> zeros n ! i = 0"
  by (simp add: zeros_def)

lemma length_zeros [simp]: "length (zeros n) = n"
  by (simp add: zeros_def)

lemma dot_zeros: "length c = n \<Longrightarrow> dot c (zeros n) = 0"
  by (simp add: dot_sum [where n = n] zeros_nth)

lemma mv_zeros: "is_mat r c B \<Longrightarrow> mv B (zeros c) = zeros r"
  by (rule vec_eqI [where n = r]) (simp_all add: is_mat_length mv_nth dot_zeros is_mat_row zeros_nth)

lemma no_pivot_kernel:
  assumes L: "is_mat n n L" and j: "j < n"
    and uc: "\<And>i k. i < n \<Longrightarrow> k < j \<Longrightarrow> L ! i ! k = (if i = k then 1 else 0)"
    and z: "\<And>p. j \<le> p \<Longrightarrow> p < n \<Longrightarrow> L ! p ! j = 0"
  shows "mv L (map (\<lambda>k. if k < j then - L ! k ! j else if k = j then 1 else 0) [0..<n]) = zeros n"
    (is "mv L ?y = _")
proof (rule vec_eqI [where n = n])
  show "length (mv L ?y) = n" using L by (simp add: is_mat_length)
  show "length (zeros n) = n" by simp
  fix i assume i: "i < n"
  have y: "length ?y = n" by simp
  have "mv L ?y ! i = (\<Sum>k<n. L ! i ! k * ?y ! k)"
    using L y i by (rule mv_entry)
  also have "\<dots> = (\<Sum>k<j. L ! i ! k * ?y ! k) + L ! i ! j * ?y ! j + (\<Sum>k = Suc j..<n. L ! i ! k * ?y ! k)"
    using j by (rule sum_split_at)
  also have "(\<Sum>k = Suc j..<n. L ! i ! k * ?y ! k) = 0"
    by (rule sum.neutral) simp
  also have "L ! i ! j * ?y ! j = L ! i ! j"
    using j by simp
  also have "(\<Sum>k<j. L ! i ! k * ?y ! k) = (\<Sum>k\<in>{..<j}. if k = i then - L ! k ! j else 0)"
    using j i by (intro sum.cong refl) (auto simp: uc)
  also have "\<dots> = (if i < j then - L ! i ! j else 0)"
    by (simp add: sum.delta)
  finally have "mv L ?y ! i = (if i < j then - L ! i ! j else 0) + L ! i ! j + 0" .
  then show "mv L ?y ! i = zeros n ! i"
    using i z [of i] by (simp add: zeros_nth)
qed

lemma vm_take:
  assumes M: "is_mat n (a + b) M" and n: "0 < n" and c: "length c = n"
  shows "take a (vm c M) = vm c (map (take a) M)"
proof -
  have L: "is_mat n a (map (take a) M)" using M by (rule is_mat_take)
  have R: "is_mat n b (map (drop a) M)" using M by (rule is_mat_drop)
  have "M = map2 (@) (map (take a) M) (map (drop a) M)"
    using M by (intro nth_equalityI) (simp_all add: is_mat_length)
  then have "vm c M = vm c (map (take a) M) @ vm c (map (drop a) M)"
    using vm_append [OF L R n c] by simp
  then show ?thesis
    using L n by (simp add: length_vm)
qed

lemma no_left_inverse:
  assumes A: "is_mat n n A" and y: "length y = n" and Ay: "mv A y = zeros n" and j: "j < n"
    and yj: "y ! j \<noteq> 0"
  shows "\<not> (\<exists>B. is_mat n n B \<and> mm B A = eye n)"
proof
  assume "\<exists>B. is_mat n n B \<and> mm B A = eye n"
  then obtain B where B: "is_mat n n B" and BA: "mm B A = eye n" by blast
  have n: "0 < n" using j by simp
  have "y = mv (eye n) y" using y by (simp add: mv_eye)
  also have "\<dots> = mv B (mv A y)"
    unfolding BA [symmetric] using B A y n by (rule mv_mm)
  also have "\<dots> = zeros n"
    using B by (simp add: Ay mv_zeros)
  finally show False
    using yj j by (simp add: zeros_nth)
qed

theorem inv_m_singular:
  assumes A: "is_mat n n A" and inv: "inv_m A = Inl e"
  shows "e = LinAlgError \<and> \<not> (\<exists>B. is_mat n n B \<and> mm B A = eye n)"
proof -
  have len: "length A = n" using A by (rule is_mat_length)
  define M0 where "M0 = map2 (@) A (eye n)"
  have M0: "is_mat n (n + n) M0"
    unfolding M0_def using A is_mat_eye by (rule is_mat_append)
  from inv have e: "e = LinAlgError" and loop: "gj_loop n 0 M0 = None"
    using A by (auto simp: inv_m_def len M0_def Let_def split: option.splits)
  have self: "in_span M0 (M0 ! i)" if "i < n" for i
    using M0 that by (rule in_span_row)
  have "\<exists>j M. j < n \<and> is_mat n (n + n) M \<and> unit_cols j M \<and>
           (\<forall>i<n. in_span M (M0 ! i)) \<and> (\<forall>p. j \<le> p \<and> p < n \<longrightarrow> M ! p ! j = 0)"
    using loop M0 _ _ init_unit_cols M0 self by (rule gj_loop_None) simp_all
  then obtain j M where j: "j < n" and M: "is_mat n (n + n) M" and uc: "unit_cols j M"
    and sp: "\<And>i. i < n \<Longrightarrow> in_span M (M0 ! i)"
    and z: "\<And>p. j \<le> p \<Longrightarrow> p < n \<Longrightarrow> M ! p ! j = 0"
    by blast
  have n: "0 < n" using j by simp
  define L where "L = map (take n) M"
  have L: "is_mat n n L"
    unfolding L_def using M by (rule is_mat_take)
  have L_entry: "L ! i ! k = M ! i ! k" if "i < n" "k < n" for i k
    using that M by (simp add: L_def is_mat_length)
  define y where "y = map (\<lambda>k. if k < j then - L ! k ! j else if k = j then 1 else 0) [0..<n]"
  have y: "length y = n" by (simp add: y_def)
  have Ly: "mv L y = zeros n"
    unfolding y_def using L j
  proof (rule no_pivot_kernel)
    fix i k assume "i < n" "k < j"
    then show "L ! i ! k = (if i = k then 1 else 0)"
      using uc j M by (simp add: L_entry unit_cols_def is_mat_length)
  next
    fix p assume "j \<le> p" "p < n"
    then show "L ! p ! j = 0"
      using z j by (simp add: L_entry)
  qed
  have Ay: "mv A y = zeros n"
  proof (rule vec_eqI [where n = n])
    show "length (mv A y) = n" using A by (simp add: is_mat_length)
    show "length (zeros n) = n" by simp
    fix i assume i: "i < n"
    from sp [OF i] is_mat_length [OF M] obtain c where c: "length c = n" "M0 ! i = vm c M"
      unfolding in_span_def by metis
    have "A ! i = take n (M0 ! i)"
      using A i by (simp add: M0_def is_mat_length is_mat_row)
    also have "\<dots> = vm c L"
      unfolding c(2) L_def using M n c(1) by (rule vm_take)
    finally have Ai: "A ! i = mv (tr L) c"
      by (simp add: vm_def)
    have "mv A y ! i = dot (A ! i) y"
      using A i by (simp add: mv_nth is_mat_length)
    also have "\<dots> = dot y (mv (tr L) c)"
      unfolding Ai using L n y by (intro dot_commute) (simp add: is_mat_tr [THEN is_mat_length])
    also have "\<dots> = dot (mv (tr (tr L)) y) c"
      using is_mat_tr [OF L n] y c(1) n by (rule dot_mv_adjoint)
    also have "\<dots> = dot (mv L y) c"
      using L n by (simp add: tr_tr)
    also have "\<dots> = 0"
      using c(1) by (simp add: Ly dot_commute [of "zeros n" c] dot_zeros)
    finally show "mv A y ! i = zeros n ! i"
      using i by (simp add: zeros_nth)
  qed
  have "y ! j \<noteq> 0"
    using j by (simp add: y_def)
  with A y Ay j have "\<not> (\<exists>B. is_mat n n B \<and> mm B A = eye n)"
    by (rule no_left_inverse)
  with e show ?thesis by simp
qed

lemma inverse_of_unique:
  assumes A: "is_mat n n A" and n: "0 < n" and B: "inverse_of A B" and C: "inverse_of A C"
  shows "B = C"
proof -
  have len: "length A = n" using A by (rule is_mat_length)
  have Bm: "is_mat n n B" and BA: "mm B A = eye n"
    using B by (simp_all add: inverse_of_def len)
  have Cm: "is_mat n n C" and AC: "mm A C = eye n"
    using C by (simp_all add: inverse_of_def len)
  have "B = mm B (mm A C)"
    using Bm n by (simp add: AC mm_eye_right)
  also have "\<dots> = mm (mm B A) C"
    using Bm A Cm n n by (rule mm_assoc [symmetric])
  also have "\<dots> = C"
    using Cm n by (simp add: BA mm_eye_left)
  finally show ?thesis .
qed

lemma inv_m_not_square: "is_mat n n A \<Longrightarrow> inv_m A \<noteq> Inl ValueError"
  using inv_m_singular by (metis error.distinct(1))

lemma inv_m_iff_invertible:
  assumes A: "is_mat n n A"
  shows "(\<exists>B. inv_m A = Inr B) \<longleftrightarrow> invertible A"
proof
  assume "\<exists>B. inv_m A = Inr B"
  then show "invertible A"
    using inv_m_sound [OF A] by (auto simp: invertible_def)
next
  assume "invertible A"
  then obtain B where B: "inverse_of A B" by (auto simp: invertible_def)
  show "\<exists>B. inv_m A = Inr B"
  proof (cases "inv_m A")
    case (Inl e)
    from inv_m_singular [OF A Inl] B A show ?thesis
      by (auto simp: inverse_of_def is_mat_length)
  next
    case (Inr B')
    then show ?thesis by blast
  qed
qed

lemma inv_m_singular_iff:
  assumes A: "is_mat n n A"
  shows "inv_m A = Inl LinAlgError \<longleftrightarrow> \<not> invertible A"
proof -
  have "inv_m A = Inl LinAlgError \<longleftrightarrow> \<not> (\<exists>B. inv_m A = Inr B)"
    using inv_m_singular [OF A] by (cases "inv_m A") auto
  then show ?thesis
    using inv_m_iff_invertible [OF A] by simp
qed

subsection \<open>One step of estimate\<close>

lemma length_fwd_wf: "wf_model n m M \<Longrightarrow> length (fwd M x) = n"
  by (auto simp: wf_model_def fwd_def length_vadd dest: is_mat_length)

lemma is_mat_pred_P:
  assumes wf: "wf_model n m M" and P: "is_mat n n P"
  shows "is_mat n n (pred_P M P)"
proof -
  have n: "0 < n" and F: "is_mat n n (F M)" and Q: "is_mat n n (Q M)"
    using wf by (simp_all add: wf_model_def)
  have "is_mat n n (mm (mm (F M) P) (tr (F M)))"
    using F P n by (intro is_mat_mm [where k = n] is_mat_tr)
  then show ?thesis
    unfolding pred_P_def using Q by (rule is_mat_madd)
qed

lemma is_mat_innov_cov:
  assumes wf: "wf_model n m M" and P: "is_mat n n P"
  shows "is_mat m m (innov_cov M P)"
proof -
  have n: "0 < n" and m: "0 < m" and H: "is_mat m n (H M)" and R: "is_mat m m (R M)"
    using wf by (simp_all add: wf_model_def)
  have "is_mat m m (mm (mm (H M) (pred_P M P)) (tr (H M)))"
    using H is_mat_pred_P [OF wf P] n m by (intro is_mat_mm [where k = n] is_mat_tr)
  then show ?thesis
    unfolding innov_cov_def using R by (rule is_mat_madd)
qed

lemma is_mat_gain:
  assumes wf: "wf_model n m M" and P: "is_mat n n P" and Si: "is_mat m m Si"
  shows "is_mat n m (gain M P Si)"
proof -
  have n: "0 < n" and m: "0 < m" and H: "is_mat m n (H M)"
    using wf by (simp_all add: wf_model_def)
  have "is_mat n m (mm (pred_P M P) (tr (H M)))"
    using is_mat_pred_P [OF wf P] H n m by (intro is_mat_mm [where k = n] is_mat_tr)
  then show ?thesis
    unfolding gain_def using Si m by (rule is_mat_mm)
qed

lemma length_innov: "wf_model n m M \<Longrightarrow> length z = m \<Longrightarrow> length (innov M x z) = m"
  by (auto simp: innov_def length_vsub wf_model_def dest: is_mat_length)

lemma length_upd_x:
  assumes wf: "wf_model n m M" and P: "is_mat n n P" and Si: "is_mat m m Si"
  shows "length (upd_x M x P Si z) = n"
  using is_mat_gain [OF wf P Si] length_fwd_wf [OF wf]
  by (simp add: upd_x_def length_vadd is_mat_length)

lemma is_mat_upd_P:
  assumes wf: "wf_model n m M" and P: "is_mat n n P" and Si: "is_mat m m Si"
  shows "is_mat n n (upd_P M P Si)"
proof -
  have n: "0 < n" and m: "0 < m" and H: "is_mat m n (H M)"
    using wf by (simp_all add: wf_model_def)
  have "is_mat n n (mm (gain M P Si) (H M))"
    using is_mat_gain [OF wf P Si] H m by (rule is_mat_mm)
  then have "is_mat n n (msub (eye n) (mm (gain M P Si) (H M)))"
    by (intro is_mat_msub is_mat_eye)
  then show ?thesis
    unfolding upd_P_def is_mat_length [OF P] using is_mat_pred_P [OF wf P] n by (rule is_mat_mm)
qed

lemma estimate_body_eq:
  assumes wf: "wf_model n m M" and x: "length x = n" and P: "is_mat n n P" and z: "length z = m"
  shows "estimate_body M (eye n) x P z =
           (case inv_m (innov_cov M P) of
              Inl e \<Rightarrow> Inl e
            | Inr Si \<Rightarrow> Inr (upd_x M x P Si z, upd_P M P Si))"
proof -
  have n: "0 < n" and m: "0 < m" and F: "is_mat n n (F M)" and Q: "is_mat n n (Q M)"
    and H: "is_mat m n (H M)" and R: "is_mat m m (R M)" and u: "length (u M) = n"
    using wf by (simp_all add: wf_model_def)
  have tF: "is_mat n n (tr (F M))" using F n by (rule is_mat_tr)
  have tH: "is_mat n m (tr (H M))" using H m by (rule is_mat_tr)
  have FP: "is_mat n n (mm (F M) P)" using F P n by (rule is_mat_mm)
  have FPF: "is_mat n n (mm (mm (F M) P) (tr (F M)))" using FP tF n by (rule is_mat_mm)
  have Pp: "is_mat n n (pred_P M P)" using wf P by (rule is_mat_pred_P)
  have HP: "is_mat m n (mm (H M) (pred_P M P))" using H Pp n by (rule is_mat_mm)
  have HPH: "is_mat m m (mm (mm (H M) (pred_P M P)) (tr (H M)))" using HP tH n by (rule is_mat_mm)
  have S: "is_mat m m (innov_cov M P)" using wf P by (rule is_mat_innov_cov)
  have PH: "is_mat n m (mm (pred_P M P) (tr (H M)))" using Pp tH n by (rule is_mat_mm)
  have e1: "matmul_mv (F M) x = Inr (mv (F M) x)" using F x by (rule matmul_mv_ok)
  have e2: "np_add1 (mv (F M) x) (u M) = Inr (fwd M x)"
    unfolding fwd_def using _ u by (rule np_add1_ok) (simp add: is_mat_length [OF F])
  have e3: "matmul (F M) P = Inr (mm (F M) P)" using F P by (rule matmul_ok)
  have e4: "matmul (mm (F M) P) (tr (F M)) = Inr (mm (mm (F M) P) (tr (F M)))"
    using FP tF by (rule matmul_ok)
  have e5: "np_add2 (mm (mm (F M) P) (tr (F M))) (Q M) = Inr (pred_P M P)"
    unfolding pred_P_def using FPF Q by (rule np_add2_ok)
  have e6: "matmul_mv (H M) (fwd M x) = Inr (mv (H M) (fwd M x))"
    using H length_fwd_wf [OF wf] by (rule matmul_mv_ok)
  have e7: "np_sub1 z (mv (H M) (fwd M x)) = Inr (innov M x z)"
    unfolding innov_def using z by (rule np_sub1_ok) (simp add: is_mat_length [OF H])
  have e8: "matmul (H M) (pred_P M P) = Inr (mm (H M) (pred_P M P))"
    using H Pp by (rule matmul_ok)
  have e9: "matmul (mm (H M) (pred_P M P)) (tr (H M)) = Inr (mm (mm (H M) (pred_P M P)) (tr (H M)))"
    using HP tH by (rule matmul_ok)
  have e10: "np_add2 (mm (mm (H M) (pred_P M P)) (tr (H M))) (R M) = Inr (innov_cov M P)"
    unfolding innov_cov_def using HPH R by (rule np_add2_ok)
  have e11: "matmul (pred_P M P) (tr (H M)) = Inr (mm (pred_P M P) (tr (H M)))"
    using Pp tH by (rule matmul_ok)
  have pre: "estimate_body M (eye n) x P z =
     bind_r (inv_m (innov_cov M P)) (\<lambda>Si.
     bind_r (matmul (mm (pred_P M P) (tr (H M))) Si) (\<lambda>Kk.
     bind_r (matmul_mv Kk (innov M x z)) (\<lambda>Ky.
     bind_r (np_add1 (fwd M x) Ky) (\<lambda>final_x.
     bind_r (matmul Kk (H M)) (\<lambda>KH.
     bind_r (np_sub2 (eye n) KH) (\<lambda>IKH.
     bind_r (matmul IKH (pred_P M P)) (\<lambda>final_P.
     Inr (final_x, final_P))))))))"
    unfolding estimate_body_def by (simp add: e1 e2 e3 e4 e5 e6 e7 e8 e9 e10 e11)
  show ?thesis
  proof (cases "inv_m (innov_cov M P)")
    case (Inl e)
    then show ?thesis by (simp add: pre)
  next
    case (Inr Si)
    have Si: "is_mat m m Si"
      using inv_m_sound [OF S Inr] by (simp add: inverse_of_def is_mat_length [OF S])
    have K: "is_mat n m (gain M P Si)" using wf P Si by (rule is_mat_gain)
    have KH: "is_mat n n (mm (gain M P Si) (H M))" using K H m by (rule is_mat_mm)
    have IKH: "is_mat n n (msub (eye n) (mm (gain M P Si) (H M)))"
      using is_mat_eye KH by (rule is_mat_msub)
    have f1: "matmul (mm (pred_P M P) (tr (H M))) Si = Inr (gain M P Si)"
      unfolding gain_def using PH Si by (rule matmul_ok)
    have f2: "matmul_mv (gain M P Si) (innov M x z) = Inr (mv (gain M P Si) (innov M x z))"
      using K length_innov [OF wf z] by (rule matmul_mv_ok)
    have f3: "np_add1 (fwd M x) (mv (gain M P Si) (innov M x z)) = Inr (upd_x M x P Si z)"
      unfolding upd_x_def using length_fwd_wf [OF wf]
      by (rule np_add1_ok) (simp add: is_mat_length [OF K])
    have f4: "matmul (gain M P Si) (H M) = Inr (mm (gain M P Si) (H M))"
      using K H by (rule matmul_ok)
    have f5: "np_sub2 (eye n) (mm (gain M P Si) (H M)) = Inr (msub (eye n) (mm (gain M P Si) (H M)))"
      using is_mat_eye KH by (rule np_sub2_ok)
    have f6: "matmul (msub (eye n) (mm (gain M P Si) (H M))) (pred_P M P) = Inr (upd_P M P Si)"
      unfolding upd_P_def is_mat_length [OF P] using IKH Pp by (rule matmul_ok)
    show ?thesis
      by (simp add: pre Inr f1 f2 f3 f4 f5 f6)
  qed
qed

subsection \<open>The loop of estimate\<close>

lemma estimate_loop_acc:
  "estimate_loop M I x P zs out Ps =
     bind_r (estimate_loop M I x P zs [] []) (\<lambda>(xs, Qs). Inr (out @ xs, Ps @ Qs))"
proof (induction zs arbitrary: x P out Ps)
  case Nil
  then show ?case by simp
next
  case (Cons z zs)
  show ?case
  proof (cases "estimate_body M I x P z")
    case (Inl e)
    then show ?thesis by simp
  next
    case (Inr r)
    obtain x1 P1 where r: "r = (x1, P1)" by (cases r)
    show ?thesis
      unfolding estimate_loop.simps Inr r
      by (simp add: Cons.IH [of x1 P1 "out @ [x1]" "Ps @ [P1]"] Cons.IH [of x1 P1 "[x1]" "[P1]"]
          bind_r_def split: sum.splits)
  qed
qed

lemma estimate_loop_Cons:
  "estimate_loop M I x P (z # zs) [] [] =
     bind_r (estimate_body M I x P z) (\<lambda>(x1, P1).
     bind_r (estimate_loop M I x1 P1 zs [] []) (\<lambda>(xs, Qs). Inr (x1 # xs, P1 # Qs)))"
proof (cases "estimate_body M I x P z")
  case (Inl e)
  then show ?thesis by simp
next
  case (Inr r)
  obtain x1 P1 where r: "r = (x1, P1)" by (cases r)
  show ?thesis
    unfolding estimate_loop.simps Inr r
    by (simp add: estimate_loop_acc [of M I x1 P1 zs "[x1]" "[P1]"])
qed

subsection \<open>The outcome of one step\<close>

lemma inv_m_Inr_iff:
  assumes S: "is_mat m m S" and m: "0 < m"
  shows "inv_m S = Inr Si \<longleftrightarrow> inverse_of S Si"
proof
  assume "inv_m S = Inr Si"
  with S show "inverse_of S Si" by (rule inv_m_sound)
next
  assume Si: "inverse_of S Si"
  then have "invertible S" by (auto simp: invertible_def)
  then obtain B where B: "inv_m S = Inr B"
    using inv_m_iff_invertible [OF S] by blast
  have "inverse_of S B" using S B by (rule inv_m_sound)
  with S m have "B = Si" using Si by (rule inverse_of_unique)
  with B show "inv_m S = Inr Si" by simp
qed

lemma estimate_body_Inr_iff:
  assumes wf: "wf_model n m M" and x: "length x = n" and P: "is_mat n n P" and z: "length z = m"
  shows "estimate_body M (eye n) x P z = Inr (x1, P1) \<longleftrightarrow>
           (\<exists>Si. inverse_of (innov_cov M P) Si \<and> x1 = upd_x M x P Si z \<and> P1 = upd_P M P Si)"
proof -
  have m: "0 < m" using wf by (simp add: wf_model_def)
  have S: "is_mat m m (innov_cov M P)" using wf P by (rule is_mat_innov_cov)
  show ?thesis
    unfolding estimate_body_eq [OF wf x P z] inv_m_Inr_iff [OF S m, symmetric]
    by (cases "inv_m (innov_cov M P)") auto
qed

lemma estimate_body_Inl_iff:
  assumes wf: "wf_model n m M" and x: "length x = n" and P: "is_mat n n P" and z: "length z = m"
  shows "estimate_body M (eye n) x P z = Inl e \<longleftrightarrow>
           e = LinAlgError \<and> \<not> invertible (innov_cov M P)"
proof -
  have S: "is_mat m m (innov_cov M P)" using wf P by (rule is_mat_innov_cov)
  show ?thesis
    unfolding estimate_body_eq [OF wf x P z] inv_m_singular_iff [OF S, symmetric]
    using inv_m_singular [OF S] by (cases "inv_m (innov_cov M P)") auto
qed

lemma inverse_of_is_mat: "is_mat m m S \<Longrightarrow> inverse_of S Si \<Longrightarrow> is_mat m m Si"
  by (auto simp: inverse_of_def dest: is_mat_length)

lemma estimate_body_shapes:
  assumes wf: "wf_model n m M" and x: "length x = n" and P: "is_mat n n P" and z: "length z = m"
    and body: "estimate_body M (eye n) x P z = Inr (x1, P1)"
  shows "length x1 = n \<and> is_mat n n P1"
proof -
  from body obtain Si where Si: "inverse_of (innov_cov M P) Si"
    and x1: "x1 = upd_x M x P Si z" and P1: "P1 = upd_P M P Si"
    unfolding estimate_body_Inr_iff [OF wf x P z] by blast
  have "is_mat m m Si"
    using is_mat_innov_cov [OF wf P] Si by (rule inverse_of_is_mat)
  then show ?thesis
    unfolding x1 P1 using wf P by (simp add: length_upd_x is_mat_upd_P)
qed

subsection \<open>The recursion of the specification\<close>

lemma kalman_seq_Nil: "kalman_seq M x P [] xs Ps \<longleftrightarrow> xs = [] \<and> Ps = []"
  by (auto simp: kalman_seq_def)

lemma kalman_seq_Cons:
  "kalman_seq M x P (z # zs) xs Ps \<longleftrightarrow>
     (\<exists>x1 P1 xs' Ps' Si. xs = x1 # xs' \<and> Ps = P1 # Ps' \<and>
        inverse_of (innov_cov M P) Si \<and> x1 = upd_x M x P Si z \<and> P1 = upd_P M P Si \<and>
        kalman_seq M x1 P1 zs xs' Ps')"
proof
  assume k: "kalman_seq M x P (z # zs) xs Ps"
  then obtain x1 xs' P1 Ps' where xs: "xs = x1 # xs'" and Ps: "Ps = P1 # Ps'"
    by (auto simp: kalman_seq_def length_Suc_conv)
  from k have len: "length xs' = length zs" "length Ps' = length zs"
    and all: "\<forall>i<Suc (length zs). \<exists>Si.
         inverse_of (innov_cov M ((P # Ps) ! i)) Si \<and>
         xs ! i = upd_x M ((x # xs) ! i) ((P # Ps) ! i) Si ((z # zs) ! i) \<and>
         Ps ! i = upd_P M ((P # Ps) ! i) Si"
    by (simp_all add: kalman_seq_def xs Ps)
  from all obtain Si where Si: "inverse_of (innov_cov M P) Si"
    and x1: "x1 = upd_x M x P Si z" and P1: "P1 = upd_P M P Si"
    unfolding All_less_Suc2 by (auto simp: xs Ps)
  from all have "\<forall>i<length zs. \<exists>Si.
         inverse_of (innov_cov M ((P1 # Ps') ! i)) Si \<and>
         xs' ! i = upd_x M ((x1 # xs') ! i) ((P1 # Ps') ! i) Si (zs ! i) \<and>
         Ps' ! i = upd_P M ((P1 # Ps') ! i) Si"
    unfolding All_less_Suc2 by (simp add: xs Ps)
  with len have "kalman_seq M x1 P1 zs xs' Ps'"
    by (simp add: kalman_seq_def)
  with xs Ps Si x1 P1 show "\<exists>x1 P1 xs' Ps' Si. xs = x1 # xs' \<and> Ps = P1 # Ps' \<and>
        inverse_of (innov_cov M P) Si \<and> x1 = upd_x M x P Si z \<and> P1 = upd_P M P Si \<and>
        kalman_seq M x1 P1 zs xs' Ps'"
    by blast
next
  assume "\<exists>x1 P1 xs' Ps' Si. xs = x1 # xs' \<and> Ps = P1 # Ps' \<and>
        inverse_of (innov_cov M P) Si \<and> x1 = upd_x M x P Si z \<and> P1 = upd_P M P Si \<and>
        kalman_seq M x1 P1 zs xs' Ps'"
  then obtain x1 P1 xs' Ps' Si where xs: "xs = x1 # xs'" and Ps: "Ps = P1 # Ps'"
    and Si: "inverse_of (innov_cov M P) Si" and x1: "x1 = upd_x M x P Si z"
    and P1: "P1 = upd_P M P Si" and k: "kalman_seq M x1 P1 zs xs' Ps'"
    by blast
  from k have len: "length xs' = length zs" "length Ps' = length zs"
    and all: "\<forall>i<length zs. \<exists>Si.
         inverse_of (innov_cov M ((P1 # Ps') ! i)) Si \<and>
         xs' ! i = upd_x M ((x1 # xs') ! i) ((P1 # Ps') ! i) Si (zs ! i) \<and>
         Ps' ! i = upd_P M ((P1 # Ps') ! i) Si"
    by (simp_all add: kalman_seq_def)
  have "\<forall>i<Suc (length zs). \<exists>Si.
         inverse_of (innov_cov M ((P # Ps) ! i)) Si \<and>
         xs ! i = upd_x M ((x # xs) ! i) ((P # Ps) ! i) Si ((z # zs) ! i) \<and>
         Ps ! i = upd_P M ((P # Ps) ! i) Si"
    unfolding All_less_Suc2 using all Si x1 P1 by (auto simp: xs Ps)
  with len show "kalman_seq M x P (z # zs) xs Ps"
    by (simp add: kalman_seq_def xs Ps)
qed

lemma estimate_loop_Cons_Inr_iff:
  "estimate_loop M I x P (z # zs) [] [] = Inr (xs, Ps) \<longleftrightarrow>
     (\<exists>x1 P1 xs' Ps'. xs = x1 # xs' \<and> Ps = P1 # Ps' \<and> estimate_body M I x P z = Inr (x1, P1) \<and>
        estimate_loop M I x1 P1 zs [] [] = Inr (xs', Ps'))"
  unfolding estimate_loop_Cons
  by (auto simp: bind_r_def split: sum.splits prod.splits)

lemma estimate_loop_kalman_seq:
  assumes wf: "wf_model n m M"
  shows "length x = n \<Longrightarrow> is_mat n n P \<Longrightarrow> list_all (\<lambda>zi. length zi = m) z \<Longrightarrow>
    estimate_loop M (eye n) x P z [] [] = Inr (xs, Ps) \<longleftrightarrow> kalman_seq M x P z xs Ps"
proof (induction z arbitrary: x P xs Ps)
  case Nil
  show ?case by (auto simp: kalman_seq_Nil)
next
  case (Cons zi zs)
  have zi: "length zi = m" and zs: "list_all (\<lambda>zi. length zi = m) zs"
    using Cons.prems(3) by simp_all
  note body = estimate_body_Inr_iff [OF wf Cons.prems(1,2) zi]
  show ?case
  proof
    assume "estimate_loop M (eye n) x P (zi # zs) [] [] = Inr (xs, Ps)"
    then obtain x1 P1 xs' Ps' where xs: "xs = x1 # xs'" "Ps = P1 # Ps'"
      and b: "estimate_body M (eye n) x P zi = Inr (x1, P1)"
      and r: "estimate_loop M (eye n) x1 P1 zs [] [] = Inr (xs', Ps')"
      unfolding estimate_loop_Cons_Inr_iff by blast
    have sh: "length x1 = n" "is_mat n n P1"
      using estimate_body_shapes [OF wf Cons.prems(1,2) zi b] by simp_all
    have "kalman_seq M x1 P1 zs xs' Ps'"
      using Cons.IH [OF sh zs, of xs' Ps'] r by blast
    with b xs show "kalman_seq M x P (zi # zs) xs Ps"
      unfolding kalman_seq_Cons body by blast
  next
    assume "kalman_seq M x P (zi # zs) xs Ps"
    then obtain x1 P1 xs' Ps' Si where xs: "xs = x1 # xs'" "Ps = P1 # Ps'"
      and Si: "inverse_of (innov_cov M P) Si" and x1: "x1 = upd_x M x P Si zi"
      and P1: "P1 = upd_P M P Si" and k: "kalman_seq M x1 P1 zs xs' Ps'"
      unfolding kalman_seq_Cons by blast
    have b: "estimate_body M (eye n) x P zi = Inr (x1, P1)"
      unfolding body using Si x1 P1 by blast
    have sh: "length x1 = n" "is_mat n n P1"
      using estimate_body_shapes [OF wf Cons.prems(1,2) zi b] by simp_all
    have "estimate_loop M (eye n) x1 P1 zs [] [] = Inr (xs', Ps')"
      using Cons.IH [OF sh zs, of xs' Ps'] k by blast
    with b xs show "estimate_loop M (eye n) x P (zi # zs) [] [] = Inr (xs, Ps)"
      unfolding estimate_loop_Cons_Inr_iff by blast
  qed
qed

lemma estimate_kalman_seq:
  assumes "wf_model n m M" and "length x0 = n" and "is_mat n n P0"
    and "list_all (\<lambda>zi. length zi = m) z"
  shows "estimate M x0 P0 z = Inr (xs, Ps) \<longleftrightarrow> kalman_seq M x0 P0 z xs Ps"
  unfolding estimate_def is_mat_length [OF assms(3)]
  using assms by (rule estimate_loop_kalman_seq)

text \<open>
  Claim C1. In matrix mode, on a well-shaped model, initial pair and observations,
  \<open>estimate\<close> returns the sequences \<open>xs\<close> and \<open>Ps\<close> exactly when they have one entry
  for each of the \<open>N\<close> observations (the initial pair is not among them) and each entry
  is obtained from its predecessor by the recursion of the specification, with an
  invertible innovation covariance at every step.
\<close>

theorem estimate_recursion:
  assumes "wf_model n m M" and "length x0 = n" and "is_mat n n P0"
    and "list_all (\<lambda>zi. length zi = m) z"
  shows "estimate M x0 P0 z = Inr (xs, Ps) \<longleftrightarrow> kalman_seq M x0 P0 z xs Ps"
  using assms by (rule estimate_kalman_seq)

subsection \<open>The scalar branch of estimate\<close>

lemma estimate_1d_body_eq:
  "estimate_1d_body M x P z =
     (if innov_cov_1d M P = 0 then Inl ZeroDivisionError
      else Inr (upd_x_1d M x P z, upd_P_1d M P))"
  by (simp add: estimate_1d_body_def Let_def innov_cov_1d_def pred_P_1d_def upd_x_1d_def
      upd_P_1d_def gain_1d_def fwd_1d_def)

lemma estimate_1d_loop_acc:
  "estimate_1d_loop M x P zs out Ps =
     bind_r (estimate_1d_loop M x P zs [] []) (\<lambda>(xs, Qs). Inr (out @ xs, Ps @ Qs))"
proof (induction zs arbitrary: x P out Ps)
  case Nil
  then show ?case by simp
next
  case (Cons z zs)
  show ?case
  proof (cases "estimate_1d_body M x P z")
    case (Inl e)
    then show ?thesis by simp
  next
    case (Inr r)
    obtain x1 P1 where r: "r = (x1, P1)" by (cases r)
    show ?thesis
      unfolding estimate_1d_loop.simps Inr r
      by (simp add: Cons.IH [of x1 P1 "out @ [x1]" "Ps @ [P1]"] Cons.IH [of x1 P1 "[x1]" "[P1]"]
          bind_r_def split: sum.splits)
  qed
qed

lemma estimate_1d_loop_Cons:
  "estimate_1d_loop M x P (z # zs) [] [] =
     bind_r (estimate_1d_body M x P z) (\<lambda>(x1, P1).
     bind_r (estimate_1d_loop M x1 P1 zs [] []) (\<lambda>(xs, Qs). Inr (x1 # xs, P1 # Qs)))"
proof (cases "estimate_1d_body M x P z")
  case (Inl e)
  then show ?thesis by simp
next
  case (Inr r)
  obtain x1 P1 where r: "r = (x1, P1)" by (cases r)
  show ?thesis
    unfolding estimate_1d_loop.simps Inr r
    by (simp add: estimate_1d_loop_acc [of M x1 P1 zs "[x1]" "[P1]"])
qed

lemma estimate_1d_Cons:
  "estimate_1d M x P (z # zs) =
     (if innov_cov_1d M P = 0 then Inl ZeroDivisionError
      else bind_r (estimate_1d M (upd_x_1d M x P z) (upd_P_1d M P) zs)
             (\<lambda>(xs, Qs). Inr (upd_x_1d M x P z # xs, upd_P_1d M P # Qs)))"
  unfolding estimate_1d_def estimate_1d_loop_Cons estimate_1d_body_eq by simp

lemma estimate_1d_Nil: "estimate_1d M x P [] = Inr ([], [])"
  by (simp add: estimate_1d_def)

lemma estimate_1d_lengths:
  "estimate_1d M x P z = Inr (xs, Ps) \<Longrightarrow> length xs = length z \<and> length Ps = length z"
proof (induction z arbitrary: x P xs Ps)
  case Nil
  then show ?case by (simp add: estimate_1d_Nil)
next
  case (Cons z0 zs)
  then show ?case
    by (auto simp: estimate_1d_Cons bind_r_eq_Inr split: if_splits)
qed

lemma estimate_1d_singular:
  "estimate_1d M x P zs1 = Inr (xs, Ps) \<Longrightarrow> innov_cov_1d M (last (P # Ps)) = 0 \<Longrightarrow>
     estimate_1d M x P (zs1 @ zi # zs2) = Inl ZeroDivisionError"
proof (induction zs1 arbitrary: x P xs Ps)
  case Nil
  then show ?case by (simp add: estimate_1d_Nil estimate_1d_Cons)
next
  case (Cons z zs1)
  from Cons.prems(1) obtain xs' Ps' where nz: "innov_cov_1d M P \<noteq> 0"
    and r: "estimate_1d M (upd_x_1d M x P z) (upd_P_1d M P) zs1 = Inr (xs', Ps')"
    and xs: "xs = upd_x_1d M x P z # xs'" "Ps = upd_P_1d M P # Ps'"
    by (auto simp: estimate_1d_Cons bind_r_eq_Inr split: if_splits)
  have "innov_cov_1d M (last (upd_P_1d M P # Ps')) = 0"
    using Cons.prems(2) by (simp add: xs)
  with r have "estimate_1d M (upd_x_1d M x P z) (upd_P_1d M P) (zs1 @ zi # zs2) =
      Inl ZeroDivisionError"
    by (rule Cons.IH)
  with nz show ?case
    by (simp add: estimate_1d_Cons)
qed

lemma estimate_1d_Inl:
  "estimate_1d M x P z = Inl e \<Longrightarrow>
     e = ZeroDivisionError \<and>
     (\<exists>zs1 zi zs2 xs Ps. z = zs1 @ zi # zs2 \<and> estimate_1d M x P zs1 = Inr (xs, Ps) \<and>
        innov_cov_1d M (last (P # Ps)) = 0)"
proof (induction z arbitrary: x P)
  case Nil
  then show ?case by (simp add: estimate_1d_Nil)
next
  case (Cons z0 zs)
  show ?case
  proof (cases "innov_cov_1d M P = 0")
    case True
    then have "e = ZeroDivisionError"
      using Cons.prems by (simp add: estimate_1d_Cons)
    moreover have "z0 # zs = [] @ z0 # zs \<and> estimate_1d M x P [] = Inr ([], []) \<and>
        innov_cov_1d M (last (P # [])) = 0"
      using True by (simp add: estimate_1d_Nil)
    ultimately show ?thesis by blast
  next
    case False
    then have "estimate_1d M (upd_x_1d M x P z0) (upd_P_1d M P) zs = Inl e"
      using Cons.prems by (auto simp: estimate_1d_Cons bind_r_eq_Inl split: prod.splits)
    from Cons.IH [OF this] obtain zs1 zi zs2 xs Ps where e: "e = ZeroDivisionError"
      and d: "zs = zs1 @ zi # zs2"
      and r: "estimate_1d M (upd_x_1d M x P z0) (upd_P_1d M P) zs1 = Inr (xs, Ps)"
      and s: "innov_cov_1d M (last (upd_P_1d M P # Ps)) = 0"
      by blast
    have "z0 # zs = (z0 # zs1) @ zi # zs2 \<and>
        estimate_1d M x P (z0 # zs1) = Inr (upd_x_1d M x P z0 # xs, upd_P_1d M P # Ps) \<and>
        innov_cov_1d M (last (P # upd_P_1d M P # Ps)) = 0"
      using d r s False by (simp add: estimate_1d_Cons)
    with e show ?thesis by blast
  qed
qed

subsection \<open>Failure of estimate\<close>

lemma estimate_loop_Cons_Inl_iff:
  "estimate_loop M I x P (z # zs) [] [] = Inl e \<longleftrightarrow>
     estimate_body M I x P z = Inl e \<or>
     (\<exists>x1 P1. estimate_body M I x P z = Inr (x1, P1) \<and> estimate_loop M I x1 P1 zs [] [] = Inl e)"
  unfolding estimate_loop_Cons
  by (auto simp: bind_r_def split: sum.splits prod.splits)

lemma estimate_loop_singular:
  assumes wf: "wf_model n m M"
  shows "length x = n \<Longrightarrow> is_mat n n P \<Longrightarrow> list_all (\<lambda>zi. length zi = m) (zs1 @ [zi]) \<Longrightarrow>
    estimate_loop M (eye n) x P zs1 [] [] = Inr (xs, Ps) \<Longrightarrow>
    \<not> invertible (innov_cov M (last (P # Ps))) \<Longrightarrow>
    estimate_loop M (eye n) x P (zs1 @ zi # zs2) [] [] = Inl LinAlgError"
proof (induction zs1 arbitrary: x P xs Ps)
  case Nil
  then have "estimate_body M (eye n) x P zi = Inl LinAlgError"
    using estimate_body_Inl_iff [OF wf Nil.prems(1,2), of zi LinAlgError] by simp
  then show ?case
    by (simp add: estimate_loop_Cons_Inl_iff del: estimate_loop.simps)
next
  case (Cons z zs1)
  have z: "length z = m" and zs: "list_all (\<lambda>zi. length zi = m) (zs1 @ [zi])"
    using Cons.prems(3) by simp_all
  from Cons.prems(4) obtain x1 P1 xs' Ps' where xs: "xs = x1 # xs'" "Ps = P1 # Ps'"
    and b: "estimate_body M (eye n) x P z = Inr (x1, P1)"
    and r: "estimate_loop M (eye n) x1 P1 zs1 [] [] = Inr (xs', Ps')"
    unfolding estimate_loop_Cons_Inr_iff by blast
  have sh: "length x1 = n" "is_mat n n P1"
    using estimate_body_shapes [OF wf Cons.prems(1,2) z b] by simp_all
  have "\<not> invertible (innov_cov M (last (P1 # Ps')))"
    using Cons.prems(5) by (simp add: xs)
  with sh zs r have "estimate_loop M (eye n) x1 P1 (zs1 @ zi # zs2) [] [] = Inl LinAlgError"
    by (rule Cons.IH)
  with b show ?case
    by (simp add: estimate_loop_Cons_Inl_iff del: estimate_loop.simps)
qed

lemma estimate_loop_Inl:
  assumes wf: "wf_model n m M"
  shows "length x = n \<Longrightarrow> is_mat n n P \<Longrightarrow> list_all (\<lambda>zi. length zi = m) z \<Longrightarrow>
    estimate_loop M (eye n) x P z [] [] = Inl e \<Longrightarrow>
    e = LinAlgError \<and>
    (\<exists>zs1 zi zs2 xs Ps. z = zs1 @ zi # zs2 \<and>
       estimate_loop M (eye n) x P zs1 [] [] = Inr (xs, Ps) \<and>
       \<not> invertible (innov_cov M (last (P # Ps))))"
proof (induction z arbitrary: x P)
  case Nil
  then show ?case by simp
next
  case (Cons z0 zs)
  have z0: "length z0 = m" and zs: "list_all (\<lambda>zi. length zi = m) zs"
    using Cons.prems(3) by simp_all
  from Cons.prems(4) consider
    (first) "estimate_body M (eye n) x P z0 = Inl e"
    | (later) x1 P1 where "estimate_body M (eye n) x P z0 = Inr (x1, P1)"
        "estimate_loop M (eye n) x1 P1 zs [] [] = Inl e"
    unfolding estimate_loop_Cons_Inl_iff by blast
  then show ?case
  proof cases
    case first
    then have e: "e = LinAlgError" and s: "\<not> invertible (innov_cov M P)"
      using estimate_body_Inl_iff [OF wf Cons.prems(1,2) z0] by simp_all
    have "z0 # zs = [] @ z0 # zs \<and> estimate_loop M (eye n) x P [] [] [] = Inr ([], []) \<and>
            \<not> invertible (innov_cov M (last (P # [])))"
      using s by simp
    with e show ?thesis by blast
  next
    case later
    have sh: "length x1 = n" "is_mat n n P1"
      using estimate_body_shapes [OF wf Cons.prems(1,2) z0 later(1)] by simp_all
    from Cons.IH [OF sh zs later(2)] obtain zs1 zi zs2 xs Ps where e: "e = LinAlgError"
      and d: "zs = zs1 @ zi # zs2"
      and r: "estimate_loop M (eye n) x1 P1 zs1 [] [] = Inr (xs, Ps)"
      and s: "\<not> invertible (innov_cov M (last (P1 # Ps)))"
      by blast
    have "z0 # zs = (z0 # zs1) @ zi # zs2 \<and>
            estimate_loop M (eye n) x P (z0 # zs1) [] [] = Inr (x1 # xs, P1 # Ps) \<and>
            \<not> invertible (innov_cov M (last (P # P1 # Ps)))"
      using d r s later(1) by (simp add: estimate_loop_Cons_Inr_iff del: estimate_loop.simps)
    with e show ?thesis by blast
  qed
qed


subsection \<open>Symmetric positive semi-definite matrices\<close>

lemma dot_vadd_right:
  "length x = n \<Longrightarrow> length y = n \<Longrightarrow> length z = n \<Longrightarrow> dot x (vadd y z) = dot x y + dot x z"
  by (simp add: dot_sum [where n = n] length_vadd vadd_nth distrib_left sum.distrib)

lemma msub_madd_cancel:
  assumes X: "is_mat r c X" and Y: "is_mat r c Y"
  shows "msub (madd X Y) X = Y"
proof (rule mat_eqI [where r = r and c = c])
  have XY: "is_mat r c (madd X Y)" using X Y by (rule is_mat_madd)
  show "is_mat r c (msub (madd X Y) X)" using XY X by (rule is_mat_msub)
  show "is_mat r c Y" by (rule Y)
  fix i j assume "i < r" "j < c"
  then show "msub (madd X Y) X ! i ! j = Y ! i ! j"
    using msub_entry [OF XY X] madd_entry [OF X Y] by simp
qed

lemma madd_msub_cancel:
  assumes B: "is_mat r c B" and Y: "is_mat r c Y"
  shows "madd (msub B Y) Y = B"
proof (rule mat_eqI [where r = r and c = c])
  have BY: "is_mat r c (msub B Y)" using B Y by (rule is_mat_msub)
  show "is_mat r c (madd (msub B Y) Y)" using BY Y by (rule is_mat_madd)
  show "is_mat r c B" by (rule B)
  fix i j assume "i < r" "j < c"
  then show "madd (msub B Y) Y ! i ! j = B ! i ! j"
    using madd_entry [OF BY Y] msub_entry [OF B Y] by simp
qed

lemma sym_psd_congruence:
  assumes X: "is_mat a b X" and P: "sym_psd b P" and a: "0 < a" and b: "0 < b"
  shows "sym_psd a (mm (mm X P) (tr X))"
proof -
  have Pm: "is_mat b b P" and Ps: "tr P = P"
    and Pp: "\<And>w. length w = b \<Longrightarrow> 0 \<le> dot w (mv P w)"
    using P by (simp_all add: sym_psd_def symmetric_def psd_def)
  have tX: "is_mat b a (tr X)" using X a by (rule is_mat_tr)
  have XP: "is_mat a b (mm X P)" using X Pm b by (rule is_mat_mm)
  have XPX: "is_mat a a (mm (mm X P) (tr X))" using XP tX b by (rule is_mat_mm)
  have "tr (mm (mm X P) (tr X)) = mm (tr (tr X)) (tr (mm X P))"
    using XP tX a b a by (rule tr_mm)
  also have "\<dots> = mm X (mm (tr P) (tr X))"
    using tr_tr [OF X a b] tr_mm [OF X Pm a b b] by simp
  also have "\<dots> = mm (mm X P) (tr X)"
    unfolding Ps using X Pm tX b b by (rule mm_assoc [symmetric])
  finally have sym: "symmetric (mm (mm X P) (tr X))"
    by (simp add: symmetric_def)
  have "0 \<le> dot x (mv (mm (mm X P) (tr X)) x)" if x: "length x = a" for x
  proof -
    define w where "w = mv (tr X) x"
    have w: "length w = b" using tX by (simp add: w_def is_mat_length)
    have Pw: "length (mv P w) = b" using Pm by (simp add: is_mat_length)
    have "mv (mm (mm X P) (tr X)) x = mv (mm X P) w"
      unfolding w_def using XP tX x b by (rule mv_mm)
    also have "\<dots> = mv X (mv P w)"
      using X Pm w b by (rule mv_mm)
    finally have "dot x (mv (mm (mm X P) (tr X)) x) = dot x (mv X (mv P w))"
      by simp
    also have "\<dots> = dot w (mv P w)"
      using dot_mv_adjoint [OF X x Pw a] by (simp add: w_def)
    finally show ?thesis using Pp [OF w] by simp
  qed
  then show ?thesis
    using XPX sym by (simp add: sym_psd_def psd_def)
qed

lemma sym_psd_madd:
  assumes A: "sym_psd n A" and B: "sym_psd n B" and n: "0 < n"
  shows "sym_psd n (madd A B)"
proof -
  have Am: "is_mat n n A" and Bm: "is_mat n n B" and As: "tr A = A" and Bs: "tr B = B"
    and Ap: "\<And>x. length x = n \<Longrightarrow> 0 \<le> dot x (mv A x)"
    and Bp: "\<And>x. length x = n \<Longrightarrow> 0 \<le> dot x (mv B x)"
    using A B by (simp_all add: sym_psd_def symmetric_def psd_def)
  have "tr (madd A B) = madd A B"
    using tr_madd [OF Am Bm n] by (simp add: As Bs)
  moreover have "0 \<le> dot x (mv (madd A B) x)" if x: "length x = n" for x
  proof -
    have "dot x (mv (madd A B) x) = dot x (mv A x) + dot x (mv B x)"
      unfolding mv_madd [OF Am Bm x] using x
      by (rule dot_vadd_right) (simp_all add: is_mat_length [OF Am] is_mat_length [OF Bm])
    then show ?thesis using Ap [OF x] Bp [OF x] by simp
  qed
  ultimately show ?thesis
    using is_mat_madd [OF Am Bm] by (simp add: sym_psd_def symmetric_def psd_def)
qed

lemma sym_psd_pred_P:
  assumes wf: "wf_model n m M" and P: "sym_psd n P" and Q: "sym_psd n (Q M)"
  shows "sym_psd n (pred_P M P)"
proof -
  have n: "0 < n" and F: "is_mat n n (F M)"
    using wf by (simp_all add: wf_model_def)
  have "sym_psd n (mm (mm (F M) P) (tr (F M)))"
    using F P n n by (rule sym_psd_congruence)
  then show ?thesis
    unfolding pred_P_def using Q n by (rule sym_psd_madd)
qed

subsection \<open>The covariance update in Joseph's form\<close>

lemma upd_P_joseph:
  assumes wf: "wf_model n m M" and P: "is_mat n n P" and Si: "is_mat m m Si"
    and SiS: "mm Si (innov_cov M P) = eye m"
  shows "upd_P M P Si =
    madd (mm (mm (msub (eye n) (mm (gain M P Si) (H M))) (pred_P M P))
             (tr (msub (eye n) (mm (gain M P Si) (H M)))))
         (mm (mm (gain M P Si) (R M)) (tr (gain M P Si)))"
proof -
  have n: "0 < n" and m: "0 < m" and H: "is_mat m n (H M)" and R: "is_mat m m (R M)"
    using wf by (simp_all add: wf_model_def)
  define Pm where "Pm = pred_P M P"
  define Ht where "Ht = tr (H M)"
  define PH where "PH = mm Pm Ht"
  define K where "K = gain M P Si"
  define KH where "KH = mm K (H M)"
  define A where "A = msub (eye n) KH"
  define HPH where "HPH = mm (mm (H M) Pm) Ht"
  define P' where "P' = mm A Pm"
  have Pm: "is_mat n n Pm" unfolding Pm_def using wf P by (rule is_mat_pred_P)
  have Ht: "is_mat n m Ht" unfolding Ht_def using H m by (rule is_mat_tr)
  have PH: "is_mat n m PH" unfolding PH_def using Pm Ht n by (rule is_mat_mm)
  have K: "is_mat n m K" unfolding K_def using wf P Si by (rule is_mat_gain)
  have Kdef: "K = mm PH Si" by (simp add: K_def gain_def PH_def Pm_def Ht_def)
  have Kt: "is_mat m n (tr K)" using K n by (rule is_mat_tr)
  have KH: "is_mat n n KH" unfolding KH_def using K H m by (rule is_mat_mm)
  have A: "is_mat n n A" unfolding A_def using is_mat_eye KH by (rule is_mat_msub)
  have HP: "is_mat m n (mm (H M) Pm)" using H Pm n by (rule is_mat_mm)
  have HPH: "is_mat m m HPH" unfolding HPH_def using HP Ht n by (rule is_mat_mm)
  have S: "innov_cov M P = madd HPH (R M)"
    by (simp add: innov_cov_def HPH_def Pm_def Ht_def)
  have P': "is_mat n n P'" unfolding P'_def using A Pm n by (rule is_mat_mm)
  have KR: "is_mat n m (mm K (R M))" using K R m by (rule is_mat_mm)
  have KHPH: "is_mat n m (mm KH PH)" using KH PH n by (rule is_mat_mm)
  have HtKt: "is_mat n n (mm Ht (tr K))" using Ht Kt m by (rule is_mat_mm)
  have KRK: "is_mat n n (mm (mm K (R M)) (tr K))" using KR Kt m by (rule is_mat_mm)
  have "mm K (innov_cov M P) = mm PH (mm Si (innov_cov M P))"
    unfolding Kdef using PH Si is_mat_innov_cov [OF wf P] m m by (rule mm_assoc)
  also have "\<dots> = PH"
    unfolding SiS using PH m by (rule mm_eye_right)
  finally have step1: "mm K (innov_cov M P) = PH" .
  have "mm K HPH = mm (mm K (mm (H M) Pm)) Ht"
    unfolding HPH_def using K HP Ht m n by (rule mm_assoc [symmetric])
  also have "mm K (mm (H M) Pm) = mm KH Pm"
    unfolding KH_def using K H Pm m n by (rule mm_assoc [symmetric])
  also have "mm (mm KH Pm) Ht = mm KH PH"
    unfolding PH_def using KH Pm Ht n n by (rule mm_assoc)
  finally have "mm K HPH = mm KH PH" .
  moreover have "mm K (innov_cov M P) = madd (mm K HPH) (mm K (R M))"
    unfolding S using K HPH R m by (rule mm_madd_right)
  ultimately have step2: "PH = madd (mm KH PH) (mm K (R M))"
    using step1 by simp
  have "mm A PH = msub (mm (eye n) PH) (mm KH PH)"
    unfolding A_def using is_mat_eye KH PH n by (rule mm_msub_left)
  also have "\<dots> = msub PH (mm KH PH)"
    using PH n by (simp add: mm_eye_left)
  also have "\<dots> = mm K (R M)"
    using msub_madd_cancel [OF KHPH KR] step2 by simp
  finally have step3: "mm A PH = mm K (R M)" .
  have "mm P' Ht = mm A PH"
    unfolding P'_def PH_def using A Pm Ht n n by (rule mm_assoc)
  with step3 have step3': "mm P' Ht = mm K (R M)" by simp
  have "tr A = msub (tr (eye n)) (tr KH)"
    unfolding A_def using is_mat_eye KH n by (rule tr_msub)
  also have "\<dots> = msub (eye n) (mm Ht (tr K))"
    unfolding KH_def Ht_def using tr_mm [OF K H n m n] by (simp add: tr_eye)
  finally have trA: "tr A = msub (eye n) (mm Ht (tr K))" .
  have "mm (mm A Pm) (tr A) = msub (mm P' (eye n)) (mm P' (mm Ht (tr K)))"
    unfolding trA P'_def [symmetric] using P' is_mat_eye HtKt n by (rule mm_msub_right)
  also have "mm P' (eye n) = P'"
    using P' n by (rule mm_eye_right)
  also have "mm P' (mm Ht (tr K)) = mm (mm P' Ht) (tr K)"
    using P' Ht Kt n m by (rule mm_assoc [symmetric])
  finally have "mm (mm A Pm) (tr A) = msub P' (mm (mm K (R M)) (tr K))"
    by (simp add: step3')
  then have "madd (mm (mm A Pm) (tr A)) (mm (mm K (R M)) (tr K)) = P'"
    using madd_msub_cancel [OF P' KRK] by simp
  moreover have "upd_P M P Si = P'"
    by (simp add: upd_P_def P'_def A_def KH_def K_def Pm_def is_mat_length [OF P])
  ultimately show ?thesis
    by (simp add: A_def KH_def K_def Pm_def)
qed

lemma sym_psd_upd_P:
  assumes wf: "wf_model n m M" and P: "sym_psd n P" and Q: "sym_psd n (Q M)"
    and R: "sym_psd m (R M)" and Si: "inverse_of (innov_cov M P) Si"
  shows "sym_psd n (upd_P M P Si)"
proof -
  have n: "0 < n" and m: "0 < m" and H: "is_mat m n (H M)"
    using wf by (simp_all add: wf_model_def)
  have Pm: "is_mat n n P" using P by (simp add: sym_psd_def)
  have S: "is_mat m m (innov_cov M P)" using wf Pm by (rule is_mat_innov_cov)
  have Sim: "is_mat m m Si" using S Si by (rule inverse_of_is_mat)
  have SiS: "mm Si (innov_cov M P) = eye m"
    using Si by (simp add: inverse_of_def is_mat_length [OF S])
  have K: "is_mat n m (gain M P Si)" using wf Pm Sim by (rule is_mat_gain)
  have A: "is_mat n n (msub (eye n) (mm (gain M P Si) (H M)))"
    using is_mat_eye is_mat_mm [OF K H m] by (rule is_mat_msub)
  have "sym_psd n (mm (mm (msub (eye n) (mm (gain M P Si) (H M))) (pred_P M P))
             (tr (msub (eye n) (mm (gain M P Si) (H M)))))"
    using A sym_psd_pred_P [OF wf P Q] n n by (rule sym_psd_congruence)
  moreover have "sym_psd n (mm (mm (gain M P Si) (R M)) (tr (gain M P Si)))"
    using K R n m by (rule sym_psd_congruence)
  ultimately show ?thesis
    unfolding upd_P_joseph [OF wf Pm Sim SiS] using n by (rule sym_psd_madd)
qed

text \<open>
  Claim C5. For symmetric positive semi-definite \<open>P0\<close>, \<open>Q\<close> and \<open>R\<close>, every covariance
  in the sequence \<open>estimate\<close> returns is symmetric and positive semi-definite. (That
  \<open>estimate\<close> returns says that every innovation covariance was invertible.)
\<close>

theorem estimate_covariances_sym_psd:
  assumes wf: "wf_model n m M" and x0: "length x0 = n" and P0: "sym_psd n P0"
    and z: "list_all (\<lambda>zi. length zi = m) z"
    and Q: "sym_psd n (Q M)" and R: "sym_psd m (R M)"
    and est: "estimate M x0 P0 z = Inr (xs, Ps)"
  shows "list_all (sym_psd n) Ps"
proof -
  have P0m: "is_mat n n P0" using P0 by (simp add: sym_psd_def)
  have k: "kalman_seq M x0 P0 z xs Ps"
    using estimate_kalman_seq [OF wf x0 P0m z, of xs Ps] est by blast
  then have len: "length Ps = length z"
    and step: "\<And>i. i < length z \<Longrightarrow> \<exists>Si. inverse_of (innov_cov M ((P0 # Ps) ! i)) Si \<and>
                 Ps ! i = upd_P M ((P0 # Ps) ! i) Si"
    by (auto simp: kalman_seq_def)
  have "sym_psd n ((P0 # Ps) ! i)" if "i \<le> length z" for i
    using that
  proof (induction i)
    case 0
    show ?case using P0 by simp
  next
    case (Suc i)
    then have i: "i < length z" and prev: "sym_psd n ((P0 # Ps) ! i)" by simp_all
    from step [OF i] obtain Si where Si: "inverse_of (innov_cov M ((P0 # Ps) ! i)) Si"
      and eq: "Ps ! i = upd_P M ((P0 # Ps) ! i) Si" by blast
    have "sym_psd n (upd_P M ((P0 # Ps) ! i) Si)"
      using wf prev Q R Si by (rule sym_psd_upd_P)
    then show ?case by (simp add: eq)
  qed
  then have "\<And>i. i < length Ps \<Longrightarrow> sym_psd n (Ps ! i)"
    using len by (metis Suc_leI nth_Cons_Suc)
  then show ?thesis
    by (simp add: list_all_length)
qed

subsection \<open>evolve\<close>

lemma multivariate_normal_4:
  "is_mat 4 4 cov \<Longrightarrow> multivariate_normal [0, 0, 0, 0] cov xi = Inr (map xi [0..<4])"
  by (simp add: multivariate_normal_def eval_nat_numeral)

lemma multivariate_normal_2:
  "is_mat 2 2 cov \<Longrightarrow> multivariate_normal [0, 0] cov xi = Inr (map xi [0..<2])"
  by (simp add: multivariate_normal_def eval_nat_numeral)

lemma multivariate_normal_4_bad:
  "\<not> is_mat 4 4 cov \<Longrightarrow> multivariate_normal [0, 0, 0, 0] cov xi = Inl ValueError"
  by (simp add: multivariate_normal_def eval_nat_numeral)

lemma multivariate_normal_2_bad:
  "\<not> is_mat 2 2 cov \<Longrightarrow> multivariate_normal [0, 0] cov xi = Inl ValueError"
  by (simp add: multivariate_normal_def eval_nat_numeral)

lemma length_noise [simp]: "length (noise d w t) = d"
  by (simp add: noise_def)

lemma length_sim_state:
  assumes wf: "wf_model n m M" and x0: "length x0 = n" and wn: "\<And>t. length (wn t) = n"
  shows "length (sim_state M wn x0 t) = n"
  by (induction t) (simp_all add: x0 wn length_vadd length_fwd_wf [OF wf])

lemma evolve_loop_closed:
  assumes wf: "wf_model 4 2 M" and x0: "length x0 = 4"
  shows "evolve_loop M w v t k (sim_state M (noise 4 w) x0 t) xs zs =
           Inr (xs @ map (sim_state M (noise 4 w) x0) [Suc t..<Suc t + k],
                zs @ map (sim_obs M (noise 4 w) (noise 2 v) x0) [t..<t + k])"
proof (induction k arbitrary: t xs zs)
  case 0
  show ?case by simp
next
  case (Suc k)
  define s where "s = sim_state M (noise 4 w) x0"
  define ob where "ob = sim_obs M (noise 4 w) (noise 2 v) x0"
  have F: "is_mat 4 4 (F M)" and Q: "is_mat 4 4 (Q M)" and H: "is_mat 2 4 (H M)"
    and R: "is_mat 2 2 (R M)" and u: "length (u M) = 4"
    using wf by (simp_all add: wf_model_def)
  have st: "length (s t) = 4"
    unfolding s_def using wf x0 by (rule length_sim_state) simp
  have e1: "multivariate_normal [0, 0, 0, 0] (Q M) (w t) = Inr (noise 4 w t)"
    using Q by (simp add: multivariate_normal_4 noise_def)
  have e2: "multivariate_normal [0, 0] (R M) (v t) = Inr (noise 2 v t)"
    using R by (simp add: multivariate_normal_2 noise_def)
  have e3: "matmul_mv (F M) (s t) = Inr (mv (F M) (s t))"
    using F st by (rule matmul_mv_ok)
  have e4: "np_add1 (mv (F M) (s t)) (u M) = Inr (fwd M (s t))"
    unfolding fwd_def using _ u by (rule np_add1_ok) (simp add: is_mat_length [OF F])
  have e5: "np_add1 (fwd M (s t)) (noise 4 w t) = Inr (s (Suc t))"
    using np_add1_ok [of "fwd M (s t)" 4 "noise 4 w t"] length_fwd_wf [OF wf]
    by (simp add: s_def)
  have e6: "matmul_mv (H M) (s t) = Inr (mv (H M) (s t))"
    using H st by (rule matmul_mv_ok)
  have e7: "np_add1 (mv (H M) (s t)) (noise 2 v t) = Inr (ob t)"
    using np_add1_ok [of "mv (H M) (s t)" 2 "noise 2 v t"] is_mat_length [OF H]
    by (simp add: ob_def sim_obs_def s_def)
  have "evolve_loop M w v t (Suc k) (s t) xs zs =
          evolve_loop M w v (Suc t) k (s (Suc t)) (xs @ [s (Suc t)]) (zs @ [ob t])"
    by (simp add: e1 e2 e3 e4 e5 e6 e7)
  also have "\<dots> = Inr ((xs @ [s (Suc t)]) @ map s [Suc (Suc t)..<Suc (Suc t) + k],
                (zs @ [ob t]) @ map ob [Suc t..<Suc t + k])"
    unfolding s_def ob_def by (rule Suc.IH)
  also have "\<dots> = Inr (xs @ map s [Suc t..<Suc t + Suc k], zs @ map ob [t..<t + Suc k])"
  proof -
    have "[Suc t..<Suc t + Suc k] = Suc t # [Suc (Suc t)..<Suc (Suc t) + k]"
      by (simp add: upt_conv_Cons)
    moreover have "[t..<t + Suc k] = t # [Suc t..<Suc t + k]"
      by (simp add: upt_conv_Cons)
    ultimately show ?thesis by simp
  qed
  finally show ?case
    by (simp add: s_def ob_def)
qed

lemma evolve_closed:
  assumes wf: "wf_model 4 2 M" and x0: "length x0 = 4"
  shows "evolve M w v x0 N =
           Inr (map (sim_state M (noise 4 w) x0) [0..<Suc (nat N)],
                map (sim_obs M (noise 4 w) (noise 2 v) x0) [0..<nat N])"
proof -
  have "evolve M w v x0 N =
          evolve_loop M w v 0 (nat N) (sim_state M (noise 4 w) x0 0) [x0] []"
    by (simp add: evolve_def)
  also have "\<dots> = Inr ([x0] @ map (sim_state M (noise 4 w) x0) [Suc 0..<Suc 0 + nat N],
                [] @ map (sim_obs M (noise 4 w) (noise 2 v) x0) [0..<0 + nat N])"
    using wf x0 by (rule evolve_loop_closed)
  also have "\<dots> = Inr (map (sim_state M (noise 4 w) x0) [0..<Suc (nat N)],
                map (sim_obs M (noise 4 w) (noise 2 v) x0) [0..<nat N])"
  proof -
    have "[0..<Suc (nat N)] = 0 # [Suc 0..<Suc 0 + nat N]"
      by (simp add: upt_conv_Cons del: upt_Suc)
    then show ?thesis by simp
  qed
  finally show ?thesis .
qed

lemma evolve_bad_shape:
  assumes "\<not> is_mat 4 4 (Q M) \<or> \<not> is_mat 2 2 (R M)" and "1 \<le> N"
  shows "evolve M w v x0 N = Inl ValueError"
proof -
  from assms(2) obtain k where k: "nat N = Suc k"
    by (cases "nat N") simp_all
  show ?thesis
  proof (cases "is_mat 4 4 (Q M)")
    case True
    with assms(1) have "\<not> is_mat 2 2 (R M)" by simp
    then show ?thesis
      using True by (simp add: evolve_def k multivariate_normal_4 multivariate_normal_2_bad)
  next
    case False
    then show ?thesis
      by (simp add: evolve_def k multivariate_normal_4_bad)
  qed
qed

subsection \<open>rewind\<close>

lemma length_bwd: "is_mat n n Fi \<Longrightarrow> length (bwd M Fi x) = n"
  by (simp add: bwd_def is_mat_length)

lemma rewind_loop_orbit:
  assumes inv: "inv_m (F M) = Inr Fi" and Fi: "is_mat n n Fi" and u: "length (u M) = n"
  shows "xs \<noteq> [] \<Longrightarrow> length (last xs) = n \<Longrightarrow>
    rewind_loop M j xs = Inr (xs @ orbit (bwd M Fi) (bwd M Fi (last xs)) j)"
proof (induction j arbitrary: xs)
  case 0
  then show ?case by (simp add: orbit_def)
next
  case (Suc j)
  have e1: "np_sub1 (last xs) (u M) = Inr (vsub (last xs) (u M))"
    using Suc.prems(2) u by (rule np_sub1_ok)
  have e2: "matmul_mv Fi (vsub (last xs) (u M)) = Inr (bwd M Fi (last xs))"
    unfolding bwd_def using Fi by (rule matmul_mv_ok) (simp add: length_vsub Suc.prems(2) u)
  have "rewind_loop M (Suc j) xs = rewind_loop M j (xs @ [bwd M Fi (last xs)])"
    by (simp add: inv e1 e2)
  also have "\<dots> = Inr ((xs @ [bwd M Fi (last xs)]) @
                      orbit (bwd M Fi) (bwd M Fi (bwd M Fi (last xs))) j)"
    using Fi by (subst Suc.IH) (simp_all add: length_bwd)
  finally show ?case
    by (simp add: orbit_Suc)
qed

lemma rewind_orbit:
  assumes F: "is_mat n n (F M)" and n: "0 < n" and u: "length (u M) = n" and x: "length x = n"
    and k: "1 \<le> k" and Fi: "inverse_of (F M) Fi"
  shows "rewind M x k = Inr (orbit (bwd M Fi) x (nat k))"
proof -
  have inv: "inv_m (F M) = Inr Fi"
    using Fi inv_m_Inr_iff [OF F n] by simp
  have Fim: "is_mat n n Fi"
    using F Fi by (rule inverse_of_is_mat)
  have kk: "nat k = Suc (nat (k - 1))"
    using k by simp
  have "rewind_loop M (nat (k - 1)) [x] = Inr (orbit (bwd M Fi) x (nat k))"
    using x by (subst rewind_loop_orbit [OF inv Fim u]) (simp_all add: kk orbit_Suc)
  moreover have "is_mat (nat k) n (orbit (bwd M Fi) x (nat k))"
    using x Fim by (intro is_mat_orbit) (simp_all add: length_bwd)
  ultimately show ?thesis
    using x k by (simp add: rewind_def reshape_same)
qed

lemma rewind_singular:
  assumes F: "is_mat n n (F M)" and s: "\<not> invertible (F M)" and k: "2 \<le> k"
  shows "rewind M x k = Inl LinAlgError"
proof -
  from k obtain j where j: "nat (k - 1) = Suc j"
    by (cases "nat (k - 1)") simp_all
  have "inv_m (F M) = Inl LinAlgError"
    using s inv_m_singular_iff [OF F] by simp
  then show ?thesis
    by (simp add: rewind_def j)
qed

lemma rewind_one: "rewind M x 1 = Inr [x]"
proof -
  have "is_mat (nat 1) (length x) [x]"
    by (simp add: is_mat_def)
  then have "reshape 1 (length x) [x] = Inr [x]"
    by (rule reshape_same) simp
  then show ?thesis
    by (simp add: rewind_def)
qed

lemma rewind_1d_loop_orbit:
  assumes "F M \<noteq> 0"
  shows "xs \<noteq> [] \<Longrightarrow>
    rewind_1d_loop M j xs = Inr (xs @ orbit (bwd_1d M) (bwd_1d M (last xs)) j)"
proof (induction j arbitrary: xs)
  case 0
  then show ?case by (simp add: orbit_def)
next
  case (Suc j)
  then show ?case
    using assms by (simp add: orbit_Suc bwd_1d_def)
qed

lemma rewind_1d_orbit:
  assumes "F M \<noteq> 0" and "1 \<le> k"
  shows "rewind_1d M x k = Inr (orbit (bwd_1d M) x (nat k))"
proof -
  have kk: "nat k = Suc (nat (k - 1))"
    using assms(2) by simp
  show ?thesis
    by (simp add: rewind_1d_def rewind_1d_loop_orbit [OF assms(1)] kk orbit_Suc)
qed

lemma rewind_1d_singular:
  assumes "F M = 0" and "2 \<le> k"
  shows "rewind_1d M x k = Inl ZeroDivisionError"
proof -
  from assms(2) obtain j where j: "nat (k - 1) = Suc j"
    by (cases "nat (k - 1)") simp_all
  show ?thesis
    using assms(1) by (simp add: rewind_1d_def j)
qed

lemma rewind_1d_one: "rewind_1d M x 1 = Inr [x]"
  by (simp add: rewind_1d_def)


subsection \<open>Forward and backward\<close>

lemma funpow_cancel:
  assumes gf: "\<And>y. S y \<Longrightarrow> g (f y) = y" and f: "\<And>y. S y \<Longrightarrow> S (f y)" and x: "S x"
  shows "i \<le> j \<Longrightarrow> (g ^^ i) ((f ^^ j) x) = (f ^^ (j - i)) x"
proof (induction i)
  case 0
  show ?case by simp
next
  case (Suc i)
  then obtain d where d: "j - i = Suc d" and d': "j - Suc i = d"
    by (cases "j - i") simp_all
  have S: "S ((f ^^ d) x)"
    by (induction d) (simp_all add: x f)
  have "(g ^^ Suc i) ((f ^^ j) x) = g ((f ^^ (j - i)) x)"
    using Suc by simp
  also have "\<dots> = (f ^^ d) x"
    unfolding d using gf [OF S] by simp
  finally show ?case by (simp add: d')
qed

lemma orbit_reverse:
  assumes gf: "\<And>y. S y \<Longrightarrow> g (f y) = y" and f: "\<And>y. S y \<Longrightarrow> S (f y)" and x: "S x"
  shows "orbit g (last (orbit f x (Suc K))) (Suc K) = rev (orbit f x (Suc K))"
proof (rule nth_equalityI)
  show "length (orbit g (last (orbit f x (Suc K))) (Suc K)) = length (rev (orbit f x (Suc K)))"
    by simp
  fix i assume "i < length (orbit g (last (orbit f x (Suc K))) (Suc K))"
  then have i: "i \<le> K" by simp
  have "orbit g (last (orbit f x (Suc K))) (Suc K) ! i = (g ^^ i) ((f ^^ K) x)"
    using i by (simp add: last_orbit)
  also have "\<dots> = (f ^^ (K - i)) x"
    using gf f x i by (rule funpow_cancel)
  also have "\<dots> = rev (orbit f x (Suc K)) ! i"
    using i by (simp add: rev_nth)
  finally show "orbit g (last (orbit f x (Suc K))) (Suc K) ! i = rev (orbit f x (Suc K)) ! i" .
qed

lemma vsub_vadd_cancel: "length a = length b \<Longrightarrow> vsub (vadd a b) b = a"
  by (rule vec_eqI [where n = "length a"]) (simp_all add: length_vadd length_vsub vadd_nth vsub_nth)

lemma bwd_fwd:
  assumes F: "is_mat n n (F M)" and n: "0 < n" and u: "length (u M) = n"
    and Fi: "inverse_of (F M) Fi" and y: "length y = n"
  shows "bwd M Fi (fwd M y) = y"
proof -
  have Fim: "is_mat n n Fi" using F Fi by (rule inverse_of_is_mat)
  have FiF: "mm Fi (F M) = eye n"
    using Fi by (simp add: inverse_of_def is_mat_length [OF F])
  have "vsub (vadd (mv (F M) y) (u M)) (u M) = mv (F M) y"
    by (rule vsub_vadd_cancel) (simp add: is_mat_length [OF F] u)
  then have "bwd M Fi (fwd M y) = mv Fi (mv (F M) y)"
    by (simp add: bwd_def fwd_def)
  also have "\<dots> = mv (mm Fi (F M)) y"
    using Fim F y n by (rule mv_mm [symmetric])
  also have "\<dots> = y"
    unfolding FiF using y by (rule mv_eye)
  finally show ?thesis .
qed

lemma fwd_bwd:
  assumes F: "is_mat n n (F M)" and n: "0 < n" and u: "length (u M) = n"
    and Fi: "inverse_of (F M) Fi" and y: "length y = n"
  shows "fwd M (bwd M Fi y) = y"
proof -
  have Fim: "is_mat n n Fi" using F Fi by (rule inverse_of_is_mat)
  have FFi: "mm (F M) Fi = eye n"
    using Fi by (simp add: inverse_of_def is_mat_length [OF F])
  have d: "length (vsub y (u M)) = n"
    using y u by (simp add: length_vsub)
  have "mv (F M) (mv Fi (vsub y (u M))) = mv (mm (F M) Fi) (vsub y (u M))"
    using F Fim d n by (rule mv_mm [symmetric])
  also have "\<dots> = vsub y (u M)"
    unfolding FFi using d by (rule mv_eye)
  finally have "fwd M (bwd M Fi y) = vadd (vsub y (u M)) (u M)"
    by (simp add: bwd_def fwd_def)
  also have "\<dots> = y"
    by (rule vadd_vsub_cancel) (simp add: y u)
  finally show ?thesis .
qed

text \<open>
  Claim C8. For an invertible \<open>F\<close> and \<open>k \<ge> 1\<close>, \<open>rewind\<close> from the last state of
  \<open>predict\<close> returns the states of \<open>predict\<close> in reverse order, and \<open>predict\<close> from the
  last state of \<open>rewind\<close> returns the states of \<open>rewind\<close> in reverse order; the same holds
  in the scalar branch for \<open>F \<noteq> 0\<close>.
\<close>

theorem predict_rewind_consistent:
  assumes "is_mat n n (F M)" and "0 < n" and "length (u M) = n" and "length x = n"
    and "invertible (F M)" and "1 \<le> k" and "F M1 \<noteq> 0"
  shows "(\<exists>xs. predict M x k = Inr xs \<and> rewind M (last xs) k = Inr (rev xs)) \<and>
         (\<exists>ys. rewind M x k = Inr ys \<and> predict M (last ys) k = Inr (rev ys)) \<and>
         rewind_1d M1 (last (predict_1d M1 x1 k)) k = Inr (rev (predict_1d M1 x1 k)) \<and>
         (\<exists>ys. rewind_1d M1 x1 k = Inr ys \<and> predict_1d M1 (last ys) k = rev ys)"
proof -
  note F = assms(1) and n = assms(2) and u = assms(3) and x = assms(4) and k = assms(6)
  from assms(5) obtain Fi where Fi: "inverse_of (F M) Fi"
    by (auto simp: invertible_def)
  have Fim: "is_mat n n Fi" using F Fi by (rule inverse_of_is_mat)
  obtain K where K: "nat k = Suc K"
    using k by (cases "nat k") simp_all
  have lf: "length (fwd M y) = n" for y
    using F u by (rule length_fwd)
  have lb: "length (bwd M Fi y) = n" for y
    using Fim by (rule length_bwd)
  have p: "predict M y k = Inr (orbit (fwd M) y (nat k))" if "length y = n" for y
    using F u that k by (rule predict_orbit)
  have r: "rewind M y k = Inr (orbit (bwd M Fi) y (nat k))" if "length y = n" for y
    using F n u that k Fi by (rule rewind_orbit)
  have last_f: "length (last (orbit (fwd M) x (Suc K))) = n"
    using x lf by (cases K) (simp_all add: last_orbit)
  have last_b: "length (last (orbit (bwd M Fi) x (Suc K))) = n"
    using x lb by (cases K) (simp_all add: last_orbit)
  have "orbit (bwd M Fi) (last (orbit (fwd M) x (Suc K))) (Suc K) = rev (orbit (fwd M) x (Suc K))"
    using bwd_fwd [OF F n u Fi] lf x by (rule orbit_reverse [where S = "\<lambda>y. length y = n"])
  then have a: "\<exists>xs. predict M x k = Inr xs \<and> rewind M (last xs) k = Inr (rev xs)"
    using p [OF x] r [OF last_f] by (simp add: K)
  have "orbit (fwd M) (last (orbit (bwd M Fi) x (Suc K))) (Suc K) = rev (orbit (bwd M Fi) x (Suc K))"
    using fwd_bwd [OF F n u Fi] lb x by (rule orbit_reverse [where S = "\<lambda>y. length y = n"])
  then have b: "\<exists>ys. rewind M x k = Inr ys \<and> predict M (last ys) k = Inr (rev ys)"
    using r [OF x] p [OF last_b] by (simp add: K)
  have p1: "predict_1d M1 y k = orbit (fwd_1d M1) y (nat k)" for y
    using k by (rule predict_1d_orbit)
  have r1: "rewind_1d M1 y k = Inr (orbit (bwd_1d M1) y (nat k))" for y
    using assms(7) k by (rule rewind_1d_orbit)
  have gf: "bwd_1d M1 (fwd_1d M1 y) = y" for y
    using assms(7) by (simp add: bwd_1d_def fwd_1d_def)
  have fg: "fwd_1d M1 (bwd_1d M1 y) = y" for y
    using assms(7) by (simp add: bwd_1d_def fwd_1d_def)
  have "orbit (bwd_1d M1) (last (orbit (fwd_1d M1) x1 (Suc K))) (Suc K)
          = rev (orbit (fwd_1d M1) x1 (Suc K))"
    by (rule orbit_reverse [where S = "\<lambda>y. True"]) (simp_all add: gf)
  then have c: "rewind_1d M1 (last (predict_1d M1 x1 k)) k = Inr (rev (predict_1d M1 x1 k))"
    by (simp add: p1 r1 K)
  have "orbit (fwd_1d M1) (last (orbit (bwd_1d M1) x1 (Suc K))) (Suc K)
          = rev (orbit (bwd_1d M1) x1 (Suc K))"
    by (rule orbit_reverse [where S = "\<lambda>y. True"]) (simp_all add: fg)
  then have d: "\<exists>ys. rewind_1d M1 x1 k = Inr ys \<and> predict_1d M1 (last ys) k = rev ys"
    by (simp add: p1 r1 K)
  from a b c d show ?thesis by blast
qed

subsection \<open>Observations without noise\<close>

lemma is_mat_zeros_mat [simp]: "is_mat r c (zeros_mat r c)"
  by (simp add: is_mat_def zeros_mat_def list_all_length)

lemma madd_zeros_mat: "is_mat r c A \<Longrightarrow> madd A (zeros_mat r c) = A"
proof (rule mat_eqI [where r = r and c = c])
  assume A: "is_mat r c A"
  show "is_mat r c (madd A (zeros_mat r c))" using A is_mat_zeros_mat by (rule is_mat_madd)
  show "is_mat r c A" by (rule A)
  fix i j assume "i < r" "j < c"
  then show "madd A (zeros_mat r c) ! i ! j = A ! i ! j"
    using madd_entry [OF A is_mat_zeros_mat] by (simp add: zeros_mat_def zeros_def)
qed

lemma mv_vadd:
  assumes A: "is_mat r c A" and x: "length x = c" and y: "length y = c"
  shows "mv A (vadd x y) = vadd (mv A x) (mv A y)"
proof (rule vec_eqI [where n = r])
  show "length (mv A (vadd x y)) = r" using A by (simp add: is_mat_length)
  show "length (vadd (mv A x) (mv A y)) = r" using A by (simp add: length_vadd is_mat_length)
  fix i assume i: "i < r"
  have xy: "length (vadd x y) = c" using x y by (simp add: length_vadd)
  have "mv A (vadd x y) ! i = (\<Sum>k<c. A ! i ! k * vadd x y ! k)"
    using A xy i by (rule mv_entry)
  also have "\<dots> = (\<Sum>k<c. A ! i ! k * x ! k + A ! i ! k * y ! k)"
    using x y by (intro sum.cong refl) (simp add: vadd_nth distrib_left)
  also have "\<dots> = mv A x ! i + mv A y ! i"
    using A x y i by (simp add: mv_entry sum.distrib)
  also have "\<dots> = vadd (mv A x) (mv A y) ! i"
    using A i by (simp add: vadd_nth is_mat_length)
  finally show "mv A (vadd x y) ! i = vadd (mv A x) (mv A y) ! i" .
qed

lemma vadd_vsub_cancel2: "length a = length z \<Longrightarrow> vadd a (vsub z a) = z"
  by (rule vec_eqI [where n = "length a"]) (simp_all add: length_vadd length_vsub vadd_nth vsub_nth)

lemma vadd_zeros: "length a = n \<Longrightarrow> vadd a (zeros n) = a"
  by (rule vec_eqI [where n = n]) (simp_all add: length_vadd vadd_nth zeros_nth)

lemma observation_reproduced:
  assumes wf: "wf_model n m M" and P: "is_mat n n P" and z: "length z = m"
    and R0: "R M = zeros_mat m m" and Si: "inverse_of (innov_cov M P) Si"
  shows "mv (H M) (upd_x M x P Si z) = z"
proof -
  have n: "0 < n" and m: "0 < m" and H: "is_mat m n (H M)"
    using wf by (simp_all add: wf_model_def)
  have Pm: "is_mat n n (pred_P M P)" using wf P by (rule is_mat_pred_P)
  have Ht: "is_mat n m (tr (H M))" using H m by (rule is_mat_tr)
  have PH: "is_mat n m (mm (pred_P M P) (tr (H M)))" using Pm Ht n by (rule is_mat_mm)
  have HP: "is_mat m n (mm (H M) (pred_P M P))" using H Pm n by (rule is_mat_mm)
  have HPH: "is_mat m m (mm (mm (H M) (pred_P M P)) (tr (H M)))" using HP Ht n by (rule is_mat_mm)
  have S: "is_mat m m (innov_cov M P)" using wf P by (rule is_mat_innov_cov)
  have Sim: "is_mat m m Si" using S Si by (rule inverse_of_is_mat)
  have SSi: "mm (innov_cov M P) Si = eye m"
    using Si by (simp add: inverse_of_def is_mat_length [OF S])
  have K: "is_mat n m (gain M P Si)" using wf P Sim by (rule is_mat_gain)
  have Seq: "innov_cov M P = mm (mm (H M) (pred_P M P)) (tr (H M))"
    unfolding innov_cov_def R0 using HPH by (rule madd_zeros_mat)
  have "mm (H M) (gain M P Si) = mm (mm (H M) (mm (pred_P M P) (tr (H M)))) Si"
    unfolding gain_def using H PH Sim n m by (rule mm_assoc [symmetric])
  also have "mm (H M) (mm (pred_P M P) (tr (H M))) = innov_cov M P"
    unfolding Seq using H Pm Ht n n by (rule mm_assoc [symmetric])
  finally have HK: "mm (H M) (gain M P Si) = eye m"
    by (simp add: SSi)
  have y: "length (innov M x z) = m" using wf z by (rule length_innov)
  have fx: "length (fwd M x) = n" using wf by (rule length_fwd_wf)
  have Ky: "length (mv (gain M P Si) (innov M x z)) = n"
    using K by (simp add: is_mat_length)
  have "mv (H M) (upd_x M x P Si z) =
          vadd (mv (H M) (fwd M x)) (mv (H M) (mv (gain M P Si) (innov M x z)))"
    unfolding upd_x_def using H fx Ky by (rule mv_vadd)
  also have "mv (H M) (mv (gain M P Si) (innov M x z)) = mv (mm (H M) (gain M P Si)) (innov M x z)"
    using H K y n by (rule mv_mm [symmetric])
  also have "\<dots> = innov M x z"
    unfolding HK using y by (rule mv_eye)
  also have "vadd (mv (H M) (fwd M x)) (innov M x z) = z"
    unfolding innov_def by (rule vadd_vsub_cancel2) (simp add: z is_mat_length [OF H])
  finally show ?thesis .
qed

lemma kalman_seq_shapes:
  assumes wf: "wf_model n m M" and x0: "length x0 = n" and P0: "is_mat n n P0"
    and k: "kalman_seq M x0 P0 z xs Ps"
  shows "i \<le> length z \<Longrightarrow> length ((x0 # xs) ! i) = n \<and> is_mat n n ((P0 # Ps) ! i)"
proof (induction i)
  case 0
  show ?case using x0 P0 by simp
next
  case (Suc i)
  then have i: "i < length z" and prev: "is_mat n n ((P0 # Ps) ! i)" by simp_all
  from k i obtain Si where Si: "inverse_of (innov_cov M ((P0 # Ps) ! i)) Si"
    and x: "xs ! i = upd_x M ((x0 # xs) ! i) ((P0 # Ps) ! i) Si (z ! i)"
    and P: "Ps ! i = upd_P M ((P0 # Ps) ! i) Si"
    unfolding kalman_seq_def by blast
  have Sim: "is_mat m m Si"
    using is_mat_innov_cov [OF wf prev] Si by (rule inverse_of_is_mat)
  show ?case
    using length_upd_x [OF wf prev Sim] is_mat_upd_P [OF wf prev Sim] by (simp add: x P)
qed


text \<open>
  Claim C10. The matrix branch of \<open>evolve\<close> draws its noise with means of the fixed
  lengths 4 and 2: on a well-shaped model of any other dimensions it fails for every
  horizon \<open>N \<ge> 1\<close>, and on one of dimensions 4 and 2 it returns. \<open>predict\<close>, \<open>rewind\<close>
  and \<open>estimate\<close> raise no shape error on a well-shaped model of any dimensions.
\<close>

theorem evolve_needs_dimensions_4_2:
  assumes wf: "wf_model n m M" and x0: "length x0 = n"
  shows "((n \<noteq> 4 \<or> m \<noteq> 2) \<and> 1 \<le> N \<longrightarrow> evolve M w v x0 N = Inl ValueError) \<and>
         (n = 4 \<and> m = 2 \<longrightarrow> (\<exists>states obs. evolve M w v x0 N = Inr (states, obs))) \<and>
         (1 \<le> k \<longrightarrow> (\<exists>xs. predict M x0 k = Inr xs) \<and> rewind M x0 k \<noteq> Inl ValueError) \<and>
         (is_mat n n P0 \<and> list_all (\<lambda>zi. length zi = m) z \<longrightarrow>
            estimate M x0 P0 z \<noteq> Inl ValueError)"
proof (intro conjI impI)
  have n: "0 < n" and F: "is_mat n n (F M)" and Q: "is_mat n n (Q M)"
    and R: "is_mat m m (R M)" and u: "length (u M) = n"
    using wf by (simp_all add: wf_model_def)
  {
    assume a: "(n \<noteq> 4 \<or> m \<noteq> 2) \<and> 1 \<le> N"
    have "\<not> is_mat 4 4 (Q M) \<or> \<not> is_mat 2 2 (R M)"
      using a is_mat_length [OF Q] is_mat_length [OF R] by (auto dest: is_mat_length)
    then show "evolve M w v x0 N = Inl ValueError"
      using a by (intro evolve_bad_shape) simp_all
  }
  {
    assume "n = 4 \<and> m = 2"
    then show "\<exists>states obs. evolve M w v x0 N = Inr (states, obs)"
      using evolve_closed [of M x0 w v N] wf x0 by simp
  }
  {
    assume k: "1 \<le> k"
    show "\<exists>xs. predict M x0 k = Inr xs"
      using predict_orbit [OF F u x0 k] by simp
    show "rewind M x0 k \<noteq> Inl ValueError"
    proof (cases "invertible (F M)")
      case True
      then obtain Fi where "inverse_of (F M) Fi" by (auto simp: invertible_def)
      from rewind_orbit [OF F n u x0 k this] show ?thesis by simp
    next
      case False
      show ?thesis
      proof (cases "k = 1")
        case True
        then show ?thesis by (simp add: rewind_one)
      next
        case k1: False
        then have "2 \<le> k" using k by simp
        with F False have "rewind M x0 k = Inl LinAlgError" by (rule rewind_singular)
        then show ?thesis by simp
      qed
    qed
  }
  {
    assume a: "is_mat n n P0 \<and> list_all (\<lambda>zi. length zi = m) z"
    show "estimate M x0 P0 z \<noteq> Inl ValueError"
    proof
      assume "estimate M x0 P0 z = Inl ValueError"
      then have "estimate_loop M (eye n) x0 P0 z [] [] = Inl ValueError"
        using a by (auto simp: estimate_def dest: is_mat_length)
      with estimate_loop_Inl [OF wf x0, of P0 z ValueError] a show False
        by simp
    qed
  }
qed

section \<open>The example models\<close>

lemmas la_defs = innov_cov_def pred_P_def upd_x_def upd_P_def gain_def innov_def fwd_def
  mm_def mv_def tr_def col_def ncols_def dot_def madd_def msub_def vadd_def vsub_def eye_def
  zeros_mat_def zeros_def

lemmas inv_defs = inv_m_def gj_step_def is_mat_def scale_def vsub_def eye_def Let_def

lemma wf_cv: "wf_model 2 1 cv"
  by (simp add: wf_model_def cv_def is_mat_def)

lemma wf_proj: "wf_model 4 2 proj"
  by (simp add: wf_model_def proj_def is_mat_def)

lemma wf_proj0: "wf_model 4 2 proj0"
  by (simp add: wf_model_def proj0_def proj_def) (simp add: is_mat_def)

lemma inverse_F_cv: "inverse_of (F cv) [[1, - 1], [0, 1]]"
proof -
  have "is_mat 2 2 (F cv)" by (simp add: cv_def is_mat_def)
  moreover have "inv_m (F cv) = Inr [[1, - 1], [0, 1]]"
    by (simp add: cv_def inv_defs eval_nat_numeral)
  ultimately show ?thesis by (rule inv_m_sound)
qed

lemma singular_F_cv_sing: "\<not> invertible (F cv_sing)"
proof -
  have "is_mat 2 2 (F cv_sing)" by (simp add: cv_sing_def cv_def is_mat_def)
  moreover have "inv_m (F cv_sing) = Inl LinAlgError"
    by (simp add: cv_sing_def cv_def inv_defs eval_nat_numeral)
  ultimately show ?thesis using inv_m_singular_iff by blast
qed

lemma vec2E:
  assumes "length (x :: real list) = 2"
  obtains a b where "x = [a, b]"
  using assms by (auto simp: eval_nat_numeral length_Suc_conv)

lemma vec1E:
  assumes "length (x :: real list) = 1"
  obtains a where "x = [a]"
  using assms by (auto simp: length_Suc_conv)

lemma sym_psd_eye2: "sym_psd 2 (eye 2)"
proof -
  have "0 \<le> dot x (mv (eye 2) x)" if "length x = 2" for x
  proof -
    from that obtain a b where "x = [a, b]" by (rule vec2E)
    then show ?thesis by (simp add: la_defs eval_nat_numeral)
  qed
  then show ?thesis
    by (simp add: sym_psd_def symmetric_def psd_def tr_eye)
qed

lemma sym_psd_Q_cv: "sym_psd 2 (Q cv)"
proof -
  have "0 \<le> dot x (mv (Q cv) x)" if "length x = 2" for x
  proof -
    from that obtain a b where "x = [a, b]" by (rule vec2E)
    then show ?thesis by (simp add: cv_def mv_def dot_def)
  qed
  moreover have "tr (Q cv) = Q cv"
    by (simp add: cv_def la_defs eval_nat_numeral)
  moreover have "is_mat 2 2 (Q cv)"
    by (simp add: cv_def is_mat_def)
  ultimately show ?thesis
    by (simp add: sym_psd_def symmetric_def psd_def)
qed

lemma sym_psd_R_cv: "sym_psd 1 (R cv)"
proof -
  have "0 \<le> dot x (mv (R cv) x)" if "length x = 1" for x
  proof -
    from that obtain a where "x = [a]" by (rule vec1E)
    then show ?thesis by (simp add: cv_def mv_def dot_def)
  qed
  moreover have "tr (R cv) = R cv"
    by (simp add: cv_def la_defs)
  moreover have "is_mat 1 1 (R cv)"
    by (simp add: cv_def is_mat_def)
  ultimately show ?thesis
    by (simp add: sym_psd_def symmetric_def psd_def)
qed

subsection \<open>Running estimate step by step\<close>

lemma estimate_loop_step:
  assumes "wf_model n m M" and "length x = n" and "is_mat n n P" and "length z = m"
    and "innov_cov M P = S" and "inv_m S = Inr Si"
    and "upd_x M x P Si z = x1" and "upd_P M P Si = P1"
  shows "estimate_loop M (eye n) x P (z # zs) [] [] =
           bind_r (estimate_loop M (eye n) x1 P1 zs [] []) (\<lambda>(xs, Ps). Inr (x1 # xs, P1 # Ps))"
  unfolding estimate_loop_Cons estimate_body_eq [OF assms(1-4)] using assms(5-8) by simp

lemma estimate_loop_step_fail:
  assumes "wf_model n m M" and "length x = n" and "is_mat n n P" and "length z = m"
    and "innov_cov M P = S" and "inv_m S = Inl e"
  shows "estimate_loop M (eye n) x P (z # zs) [] [] = Inl e"
  unfolding estimate_loop_Cons estimate_body_eq [OF assms(1-4)] using assms(5,6) by simp

lemma cv_step1:
  "estimate_loop cv (eye 2) [0, 1] (eye 2) ([1] # zs) [] [] =
     bind_r (estimate_loop cv (eye 2) [1, 1] [[2/3, 1/3], [1/3, 2/3]] zs [] [])
       (\<lambda>(xs, Ps). Inr ([1, 1] # xs, [[2/3, 1/3], [1/3, 2/3]] # Ps))"
proof (rule estimate_loop_step [OF wf_cv])
  show "innov_cov cv (eye 2) = [[3]]"
    by (simp add: cv_def la_defs eval_nat_numeral)
  show "inv_m [[3]] = Inr [[1/3]]"
    by (simp add: inv_defs)
  show "upd_x cv [0, 1] (eye 2) [[1/3]] [1] = [1, 1]"
    by (simp add: cv_def la_defs eval_nat_numeral)
  show "upd_P cv (eye 2) [[1/3]] = [[2/3, 1/3], [1/3, 2/3]]"
    by (simp add: cv_def la_defs eval_nat_numeral)
qed simp_all

lemma cv_step2:
  "estimate_loop cv (eye 2) [1, 1] [[2/3, 1/3], [1/3, 2/3]] ([2] # zs) [] [] =
     bind_r (estimate_loop cv (eye 2) [2, 1] [[2/3, 1/3], [1/3, 1/3]] zs [] [])
       (\<lambda>(xs, Ps). Inr ([2, 1] # xs, [[2/3, 1/3], [1/3, 1/3]] # Ps))"
proof (rule estimate_loop_step [OF wf_cv])
  show "innov_cov cv [[2/3, 1/3], [1/3, 2/3]] = [[3]]"
    by (simp add: cv_def la_defs eval_nat_numeral)
  show "inv_m [[3]] = Inr [[1/3]]"
    by (simp add: inv_defs)
  show "upd_x cv [1, 1] [[2/3, 1/3], [1/3, 2/3]] [[1/3]] [2] = [2, 1]"
    by (simp add: cv_def la_defs eval_nat_numeral)
  show "upd_P cv [[2/3, 1/3], [1/3, 2/3]] [[1/3]] = [[2/3, 1/3], [1/3, 1/3]]"
    by (simp add: cv_def la_defs eval_nat_numeral)
qed (simp_all add: is_mat_def)

lemma estimate_cv:
  "estimate cv [0, 1] (eye 2) [[1], [2]] =
     Inr ([[1, 1], [2, 1]], [[[2/3, 1/3], [1/3, 2/3]], [[2/3, 1/3], [1/3, 1/3]]])"
  unfolding estimate_def length_eye cv_step1 cv_step2 by simp

lemma proj0_step1:
  "estimate_loop proj0 (eye 4) [0, 0, 300, 600] (eye 4) ([0, 0] # zs) [] [] =
     bind_r (estimate_loop proj0 (eye 4) [0, 0, 30000/101, 2995051/5050]
               [[0, 0, 0, 0], [0, 0, 0, 0], [0, 0, 100/101, 0], [0, 0, 0, 100/101]] zs [] [])
       (\<lambda>(xs, Ps). Inr ([0, 0, 30000/101, 2995051/5050] # xs,
          [[0, 0, 0, 0], [0, 0, 0, 0], [0, 0, 100/101, 0], [0, 0, 0, 100/101]] # Ps))"
proof (rule estimate_loop_step [OF wf_proj0])
  show "innov_cov proj0 (eye 4) = [[101/100, 0], [0, 101/100]]"
    by (simp add: proj0_def proj_def la_defs eval_nat_numeral)
  show "inv_m [[101/100, 0], [0, 101/100]] = Inr [[100/101, 0], [0, 100/101]]"
    by (simp add: inv_defs eval_nat_numeral)
  show "upd_x proj0 [0, 0, 300, 600] (eye 4) [[100/101, 0], [0, 100/101]] [0, 0] =
          [0, 0, 30000/101, 2995051/5050]"
    by (simp add: proj0_def proj_def la_defs eval_nat_numeral)
  show "upd_P proj0 (eye 4) [[100/101, 0], [0, 100/101]] =
          [[0, 0, 0, 0], [0, 0, 0, 0], [0, 0, 100/101, 0], [0, 0, 0, 100/101]]"
    by (simp add: proj0_def proj_def la_defs eval_nat_numeral)
qed simp_all

lemma proj0_step2:
  "estimate_loop proj0 (eye 4) [0, 0, 30000/101, 2995051/5050]
       [[0, 0, 0, 0], [0, 0, 0, 0], [0, 0, 100/101, 0], [0, 0, 0, 100/101]] ([30, 60] # zs) [] [] =
     bind_r (estimate_loop proj0 (eye 4) [30, 60, 300, 29951/50] (zeros_mat 4 4) zs [] [])
       (\<lambda>(xs, Ps). Inr ([30, 60, 300, 29951/50] # xs, zeros_mat 4 4 # Ps))"
proof (rule estimate_loop_step [OF wf_proj0])
  show "innov_cov proj0 [[0, 0, 0, 0], [0, 0, 0, 0], [0, 0, 100/101, 0], [0, 0, 0, 100/101]] =
          [[1/101, 0], [0, 1/101]]"
    by (simp add: proj0_def proj_def la_defs eval_nat_numeral)
  show "inv_m [[1/101, 0], [0, 1/101]] = Inr [[101, 0], [0, 101]]"
    by (simp add: inv_defs eval_nat_numeral)
  show "upd_x proj0 [0, 0, 30000/101, 2995051/5050]
          [[0, 0, 0, 0], [0, 0, 0, 0], [0, 0, 100/101, 0], [0, 0, 0, 100/101]]
          [[101, 0], [0, 101]] [30, 60] = [30, 60, 300, 29951/50]"
    by (simp add: proj0_def proj_def la_defs eval_nat_numeral)
  show "upd_P proj0 [[0, 0, 0, 0], [0, 0, 0, 0], [0, 0, 100/101, 0], [0, 0, 0, 100/101]]
          [[101, 0], [0, 101]] = zeros_mat 4 4"
    by (simp add: proj0_def proj_def la_defs eval_nat_numeral)
qed (simp_all add: is_mat_def)

lemma proj0_step3:
  "estimate_loop proj0 (eye 4) [30, 60, 300, 29951/50] (zeros_mat 4 4) ([60, 59951/500] # zs) [] []
     = Inl LinAlgError"
proof (rule estimate_loop_step_fail [OF wf_proj0])
  show "innov_cov proj0 (zeros_mat 4 4) = [[0, 0], [0, 0]]"
    by (simp add: proj0_def proj_def la_defs eval_nat_numeral)
  show "inv_m [[0, 0], [0, 0]] = Inl LinAlgError"
    by (simp add: inv_defs eval_nat_numeral)
qed simp_all

lemma estimate_proj0_1:
  "estimate proj0 [0, 0, 300, 600] (eye 4) [[0, 0]] =
     Inr ([[0, 0, 30000/101, 2995051/5050]],
          [[[0, 0, 0, 0], [0, 0, 0, 0], [0, 0, 100/101, 0], [0, 0, 0, 100/101]]])"
  unfolding estimate_def length_eye proj0_step1 by simp

lemma estimate_proj0_2:
  "estimate proj0 [0, 0, 300, 600] (eye 4) [[0, 0], [30, 60]] =
     Inr ([[0, 0, 30000/101, 2995051/5050], [30, 60, 300, 29951/50]],
          [[[0, 0, 0, 0], [0, 0, 0, 0], [0, 0, 100/101, 0], [0, 0, 0, 100/101]], zeros_mat 4 4])"
  unfolding estimate_def length_eye proj0_step1 proj0_step2 by simp

lemma estimate_proj0_3:
  "estimate proj0 [0, 0, 300, 600] (eye 4) [[0, 0], [30, 60], [60, 59951/500]] = Inl LinAlgError"
  unfolding estimate_def length_eye proj0_step1 proj0_step2 proj0_step3 by simp

lemma estimate_proj0_zero:
  "estimate proj0 [0, 0, 300, 600] (zeros_mat 4 4) [[0, 0], [30, 60]] = Inl LinAlgError"
proof -
  have "estimate_loop proj0 (eye 4) [0, 0, 300, 600] (zeros_mat 4 4) ([0, 0] # [[30, 60]]) [] []
          = Inl LinAlgError"
  proof (rule estimate_loop_step_fail [OF wf_proj0])
    show "innov_cov proj0 (zeros_mat 4 4) = [[0, 0], [0, 0]]"
      by (simp add: proj0_def proj_def la_defs eval_nat_numeral)
    show "inv_m [[0, 0], [0, 0]] = Inl LinAlgError"
      by (simp add: inv_defs eval_nat_numeral)
  qed simp_all
  moreover have "length (zeros_mat 4 4) = 4"
    by (simp add: zeros_mat_def)
  ultimately show ?thesis
    by (simp add: estimate_def del: estimate_loop.simps)
qed

lemma evolve_proj0_3:
  "evolve proj0 quiet quiet [0, 0, 300, 600] 3 =
     Inr ([[0, 0, 300, 600], [30, 60, 300, 29951/50], [60, 59951/500, 300, 14951/25],
           [90, 89853/500, 300, 29853/50]],
          [[0, 0], [30, 60], [60, 59951/500]])"
  unfolding evolve_closed [OF wf_proj0, of "[0, 0, 300, 600]", simplified]
  by (simp add: proj0_def proj_def sim_obs_def noise_def quiet_def la_defs eval_nat_numeral)

lemma evolve_proj0_2:
  "evolve proj0 quiet quiet [0, 0, 300, 600] 2 =
     Inr ([[0, 0, 300, 600], [30, 60, 300, 29951/50], [60, 59951/500, 300, 14951/25]],
          [[0, 0], [30, 60]])"
  unfolding evolve_closed [OF wf_proj0, of "[0, 0, 300, 600]", simplified]
  by (simp add: proj0_def proj_def sim_obs_def noise_def quiet_def la_defs eval_nat_numeral)

section \<open>Witnesses, counterexamples and failing inputs\<close>

lemma sym_psd_eye: "sym_psd n (eye n)"
proof -
  have "0 \<le> dot x (mv (eye n) x)" if "length x = n" for x
    using that by (simp add: mv_eye dot_sum [where n = n] sum_nonneg)
  then show ?thesis
    by (simp add: sym_psd_def symmetric_def psd_def tr_eye)
qed

theorem estimate_recursion_witness:
  "wf_model 2 1 cv \<and> length [0, 1 :: real] = 2 \<and> is_mat 2 2 (eye 2) \<and>
   list_all (\<lambda>zi. length zi = 1) [[1], [2 :: real]] \<and>
   estimate cv [0, 1] (eye 2) [[1], [2]] =
     Inr ([[1, 1], [2, 1]], [[[2/3, 1/3], [1/3, 2/3]], [[2/3, 1/3], [1/3, 1/3]]]) \<and>
   kalman_seq cv [0, 1] (eye 2) [[1], [2]]
     [[1, 1], [2, 1]] [[[2/3, 1/3], [1/3, 2/3]], [[2/3, 1/3], [1/3, 1/3]]]"
proof -
  have x: "length [0, 1 :: real] = 2" and P: "is_mat 2 2 (eye 2)"
    and z: "list_all (\<lambda>zi. length zi = 1) [[1], [2 :: real]]"
    by simp_all
  have "kalman_seq cv [0, 1] (eye 2) [[1], [2]]
     [[1, 1], [2, 1]] [[[2/3, 1/3], [1/3, 2/3]], [[2/3, 1/3], [1/3, 1/3]]]"
    using estimate_recursion [OF wf_cv x P z,
        of "[[1, 1], [2, 1]]" "[[[2/3, 1/3], [1/3, 2/3]], [[2/3, 1/3], [1/3, 1/3]]]"]
      estimate_cv by blast
  with wf_cv x P z estimate_cv show ?thesis by blast
qed

theorem estimate_covariances_sym_psd_witness:
  "wf_model 2 1 cv \<and> sym_psd 2 (eye 2) \<and> sym_psd 2 (Q cv) \<and> sym_psd 1 (R cv) \<and>
   estimate cv [0, 1] (eye 2) [[1], [2]] =
     Inr ([[1, 1], [2, 1]], [[[2/3, 1/3], [1/3, 2/3]], [[2/3, 1/3], [1/3, 1/3]]]) \<and>
   list_all (sym_psd 2) [[[2/3, 1/3], [1/3, 2/3]], [[2/3, 1/3], [1/3, 1/3]]]"
proof -
  have x: "length [0, 1 :: real] = 2"
    and z: "list_all (\<lambda>zi. length zi = 1) [[1], [2 :: real]]"
    by simp_all
  have "list_all (sym_psd 2) [[[2/3, 1/3], [1/3, 2/3]], [[2/3, 1/3], [1/3, 1/3]]]"
    using wf_cv x sym_psd_eye z sym_psd_Q_cv sym_psd_R_cv estimate_cv
    by (rule estimate_covariances_sym_psd)
  with wf_cv sym_psd_eye sym_psd_Q_cv sym_psd_R_cv estimate_cv show ?thesis by blast
qed



theorem predict_rewind_consistent_witness:
  "is_mat 2 2 (F cv) \<and> length (u cv) = 2 \<and> invertible (F cv) \<and> F scal \<noteq> 0 \<and>
   (\<exists>xs. predict cv [1, 2] 3 = Inr xs \<and> rewind cv (last xs) 3 = Inr (rev xs)) \<and>
   (\<exists>ys. rewind cv [1, 2] 3 = Inr ys \<and> predict cv (last ys) 3 = Inr (rev ys)) \<and>
   rewind_1d scal (last (predict_1d scal 2 3)) 3 = Inr (rev (predict_1d scal 2 3)) \<and>
   (\<exists>ys. rewind_1d scal 2 3 = Inr ys \<and> predict_1d scal (last ys) 3 = rev ys)"
proof -
  have F: "is_mat 2 2 (F cv)" and u: "length (u cv) = 2"
    by (simp_all add: cv_def is_mat_def)
  have n: "(0::nat) < 2" and x: "length [1, 2 :: real] = 2" and k: "(1::int) \<le> 3"
    by simp_all
  have inv: "invertible (F cv)"
    using inverse_F_cv by (auto simp: invertible_def)
  have F1: "F scal \<noteq> 0"
    by (simp add: scal_def)
  from predict_rewind_consistent [OF F n u x inv k F1, of 2] F u inv F1 show ?thesis
    by blast
qed


theorem evolve_needs_dimensions_4_2_witness:
  "wf_model 2 1 cv \<and> evolve cv quiet quiet [0, 1] 1 = Inl ValueError \<and>
   wf_model 4 2 proj \<and>
   (\<exists>states obs. evolve proj quiet quiet [0, 0, 300, 600] 2 = Inr (states, obs)) \<and>
   (\<exists>xs. predict cv [0, 1] 3 = Inr xs) \<and>
   rewind cv [0, 1] 3 \<noteq> Inl ValueError \<and>
   estimate cv [0, 1] (eye 2) [[1], [2]] \<noteq> Inl ValueError"
proof -
  have x2: "length [0, 1 :: real] = 2" and x4: "length [0, 0, 300, 600 :: real] = 4"
    by simp_all
  have P2: "is_mat 2 2 (eye 2)" and z2: "list_all (\<lambda>zi. length zi = 1) [[1], [2 :: real]]"
    by simp_all
  note c = evolve_needs_dimensions_4_2 [OF wf_cv x2, of 1 quiet quiet 3 "eye 2" "[[1], [2]]"]
  note p = evolve_needs_dimensions_4_2 [OF wf_proj x4, of 2 quiet quiet]
  have "evolve cv quiet quiet [0, 1] 1 = Inl ValueError"
    using c by simp
  moreover have "\<exists>states obs. evolve proj quiet quiet [0, 0, 300, 600] 2 = Inr (states, obs)"
    using p by simp
  moreover have "(\<exists>xs. predict cv [0, 1] 3 = Inr xs) \<and> rewind cv [0, 1] 3 \<noteq> Inl ValueError"
    using c by simp
  moreover have "estimate cv [0, 1] (eye 2) [[1], [2]] \<noteq> Inl ValueError"
    using c P2 z2 by blast
  ultimately show ?thesis
    using wf_cv wf_proj by blast
qed



subsection \<open>The scalar branch of evolve\<close>

lemma evolve_1d_loop_closed:
  assumes "0 \<le> Q M" and "0 \<le> R M"
  shows "evolve_1d_loop M w v t k x0 xs zs =
           Inr (xs @ map (\<lambda>s. F M * x0 + u M + w s) [t..<t + k],
                zs @ map (\<lambda>s. H M * x0 + v s) [t..<t + k])"
proof (induction k arbitrary: t xs zs)
  case 0
  show ?case by simp
next
  case (Suc k)
  have "[t..<t + Suc k] = t # [Suc t..<Suc t + k]"
    by (simp add: upt_conv_Cons)
  then show ?case
    using assms by (simp add: normal_def Suc.IH del: upt_Suc)
qed

lemma evolve_1d_closed:
  assumes "0 \<le> Q M" and "0 \<le> R M"
  shows "evolve_1d M w v x0 N =
           Inr (x0 # map (\<lambda>t. F M * x0 + u M + w t) [0..<nat N],
                map (\<lambda>t. H M * x0 + v t) [0..<nat N])"
  using evolve_1d_loop_closed [OF assms, of w v 0 "nat N" x0 "[x0]" "[]"]
  by (simp add: evolve_1d_def)

text \<open>
  Claim C3 and the code. In the scalar branch every state after the first is computed
  from the initial state, and so is every observation: for \<open>F = 2\<close>, \<open>H = 1\<close>, \<open>u = 0\<close>
  and no noise, two steps from 1 give the states 1, 2, 2 and the observations 1, 1,
  where the claim's recursion gives the third state \<open>F \<cdot> 2 + u = 4\<close> and the second
  observation \<open>H \<cdot> 2 = 2\<close>.
\<close>

theorem evolve_1d_keeps_initial_state:
  "evolve_1d scal quiet_1d quiet_1d 1 2 = Inr ([1, 2, 2], [1, 1]) \<and>
   F scal * ([1, 2, 2] ! 1) + u scal + quiet_1d 1 = 4 \<and>
   H scal * ([1, 2, 2] ! 1) + quiet_1d 1 = 2"
proof -
  have "0 \<le> Q scal" "0 \<le> R scal"
    by (simp_all add: scal_def)
  then have "evolve_1d scal quiet_1d quiet_1d 1 2 =
           Inr (1 # map (\<lambda>t. F scal * 1 + u scal + quiet_1d t) [0..<nat 2],
                map (\<lambda>t. H scal * 1 + quiet_1d t) [0..<nat 2])"
    by (rule evolve_1d_closed)
  then show ?thesis
    by (simp add: scal_def quiet_1d_def eval_nat_numeral)
qed

text \<open>
  Claim C2 and the code. On the scalar model above the scalar branch of \<open>evolve\<close>
  returns the states 1, 2, 2 and the observations 1, 1. The matrix branch on the same
  parameters as \<open>1 \<times> 1\<close> matrices raises \<open>ValueError\<close> (its noise has length 4), and
  the recursion its loop implements gives the states 1, 2, 4 and the observations 1, 2.
\<close>

theorem evolve_scalar_and_matrix_differ:
  "evolve_1d scal quiet_1d quiet_1d 1 2 = Inr ([1, 2, 2], [1, 1]) \<and>
   evolve scal_mat quiet quiet [1] 2 = Inl ValueError \<and>
   map (sim_state scal_mat (noise 1 quiet) [1]) [0..<3] = [[1], [2], [4]] \<and>
   map (sim_obs scal_mat (noise 1 quiet) (noise 1 quiet) [1]) [0..<2] = [[1], [2]]"
proof -
  have "0 \<le> Q scal" "0 \<le> R scal"
    by (simp_all add: scal_def)
  then have "evolve_1d scal quiet_1d quiet_1d 1 2 =
           Inr (1 # map (\<lambda>t. F scal * 1 + u scal + quiet_1d t) [0..<nat 2],
                map (\<lambda>t. H scal * 1 + quiet_1d t) [0..<nat 2])"
    by (rule evolve_1d_closed)
  then have a: "evolve_1d scal quiet_1d quiet_1d 1 2 = Inr ([1, 2, 2], [1, 1])"
    by (simp add: scal_def quiet_1d_def eval_nat_numeral)
  have "\<not> is_mat 4 4 (Q scal_mat)"
    by (simp add: scal_mat_def is_mat_def)
  then have b: "evolve scal_mat quiet quiet [1] 2 = Inl ValueError"
    by (intro evolve_bad_shape) simp_all
  have c: "map (sim_state scal_mat (noise 1 quiet) [1]) [0..<3] = [[1], [2], [4]]"
    by (simp add: scal_mat_def noise_def quiet_def la_defs eval_nat_numeral)
  have d: "map (sim_obs scal_mat (noise 1 quiet) (noise 1 quiet) [1]) [0..<2] = [[1], [2]]"
    by (simp add: scal_mat_def sim_obs_def noise_def quiet_def la_defs eval_nat_numeral)
  from a b c d show ?thesis by blast
qed

section \<open>The scalar branch against the matrix branch\<close>

text \<open>
  On the parameters of a scalar model as \<open>1 \<times> 1\<close> matrices, the matrix branches of
  \<open>estimate\<close>, \<open>predict\<close> and \<open>rewind\<close> return the values of the scalar branches, each
  in a list of length 1, and fail where the scalar branches fail (with scipy's error
  where the scalar branch divides by zero). Only \<open>evolve\<close> differs.
\<close>

lemma wf_as_mat: "wf_model 1 1 (as_mat M)"
  by (simp add: wf_model_def as_mat_def is_mat_def)

lemma fwd_as_mat: "fwd (as_mat M) [x] = [fwd_1d M x]"
  by (simp add: as_mat_def fwd_1d_def la_defs)

lemma funpow_fwd_as_mat: "(fwd (as_mat M) ^^ i) [x] = [(fwd_1d M ^^ i) x]"
  by (induction i) (simp_all add: fwd_as_mat)

lemma predict_as_mat:
  assumes "1 \<le> k"
  shows "predict (as_mat M) [x] k = Inr (map (\<lambda>y. [y]) (predict_1d M x k))"
proof -
  have "is_mat 1 1 (F (as_mat M))" "length (u (as_mat M)) = 1" "length [x] = 1"
    by (simp_all add: as_mat_def is_mat_def)
  then have "predict (as_mat M) [x] k = Inr (orbit (fwd (as_mat M)) [x] (nat k))"
    using assms by (rule predict_orbit)
  moreover have "orbit (fwd (as_mat M)) [x] (nat k) = map (\<lambda>y. [y]) (orbit (fwd_1d M) x (nat k))"
    by (simp add: orbit_def funpow_fwd_as_mat)
  ultimately show ?thesis
    using assms by (simp add: predict_1d_orbit)
qed

lemma inv_m_1x1: "inv_m [[s]] = (if s = 0 then Inl LinAlgError else Inr [[1 / s]])"
  by (simp add: inv_defs)

lemma bwd_as_mat: "bwd (as_mat M) [[1 / F M]] [x] = [bwd_1d M x]"
  by (simp add: as_mat_def bwd_def bwd_1d_def la_defs)

lemma funpow_bwd_as_mat: "(bwd (as_mat M) [[1 / F M]] ^^ i) [x] = [(bwd_1d M ^^ i) x]"
  by (induction i) (simp_all add: bwd_as_mat)

lemma rewind_as_mat:
  assumes k: "1 \<le> k"
  shows "rewind (as_mat M) [x] k =
           (case rewind_1d M x k of
              Inl e \<Rightarrow> Inl LinAlgError
            | Inr ys \<Rightarrow> Inr (map (\<lambda>y. [y]) ys))"
proof (cases "F M = 0")
  case True
  have F: "is_mat 1 1 (F (as_mat M))"
    by (simp add: as_mat_def is_mat_def)
  have s: "\<not> invertible (F (as_mat M))"
    using inv_m_singular_iff [OF F] True by (simp add: as_mat_def inv_m_1x1)
  show ?thesis
  proof (cases "k = 1")
    case True
    then show ?thesis by (simp add: rewind_one rewind_1d_one)
  next
    case False
    then have "2 \<le> k" using k by simp
    then show ?thesis
      using rewind_singular [OF F s] rewind_1d_singular [OF True] by simp
  qed
next
  case False
  have F: "is_mat 1 1 (F (as_mat M))" and u: "length (u (as_mat M)) = 1"
    by (simp_all add: as_mat_def is_mat_def)
  have "inv_m (F (as_mat M)) = Inr [[1 / F M]]"
    using False by (simp add: as_mat_def inv_m_1x1)
  with F have Fi: "inverse_of (F (as_mat M)) [[1 / F M]]"
    by (rule inv_m_sound)
  have "rewind (as_mat M) [x] k = Inr (orbit (bwd (as_mat M) [[1 / F M]]) [x] (nat k))"
    using F _ u _ k Fi by (rule rewind_orbit) simp_all
  moreover have "orbit (bwd (as_mat M) [[1 / F M]]) [x] (nat k) =
      map (\<lambda>y. [y]) (orbit (bwd_1d M) x (nat k))"
    by (simp add: orbit_def funpow_bwd_as_mat)
  ultimately show ?thesis
    using False k by (simp add: rewind_1d_orbit)
qed

lemma innov_cov_as_mat: "innov_cov (as_mat M) [[P]] = [[innov_cov_1d M P]]"
  by (simp add: as_mat_def innov_cov_1d_def pred_P_1d_def la_defs power2_eq_square algebra_simps)

lemma upd_x_as_mat:
  "upd_x (as_mat M) [x] [[P]] [[1 / innov_cov_1d M P]] [z] = [upd_x_1d M x P z]"
  by (simp add: as_mat_def upd_x_1d_def gain_1d_def fwd_1d_def pred_P_1d_def la_defs
      power2_eq_square algebra_simps)

lemma upd_P_as_mat:
  "upd_P (as_mat M) [[P]] [[1 / innov_cov_1d M P]] = [[upd_P_1d M P]]"
  by (simp add: as_mat_def upd_P_1d_def gain_1d_def pred_P_1d_def la_defs
      power2_eq_square algebra_simps)

lemma estimate_loop_as_mat:
  "estimate_loop (as_mat M) (eye 1) [x] [[P]] (map (\<lambda>z. [z]) zs) [] [] =
     (case estimate_1d M x P zs of
        Inl e \<Rightarrow> Inl LinAlgError
      | Inr (xs, Ps) \<Rightarrow> Inr (map (\<lambda>x. [x]) xs, map (\<lambda>P. [[P]]) Ps))"
proof (induction zs arbitrary: x P)
  case Nil
  show ?case by (simp add: estimate_1d_Nil)
next
  case (Cons z zs)
  have body: "estimate_body (as_mat M) (eye 1) [x] [[P]] [z] =
      (if innov_cov_1d M P = 0 then Inl LinAlgError
       else Inr ([upd_x_1d M x P z], [[upd_P_1d M P]]))"
    using estimate_body_eq [OF wf_as_mat, of "[x]" "[[P]]" "[z]" M]
    by (simp add: is_mat_def innov_cov_as_mat inv_m_1x1 upd_x_as_mat upd_P_as_mat)
  show ?case
  proof (cases "innov_cov_1d M P = 0")
    case True
    then show ?thesis
      unfolding list.map estimate_loop_Cons body estimate_1d_Cons by simp
  next
    case False
    show ?thesis
    proof (cases "estimate_1d M (upd_x_1d M x P z) (upd_P_1d M P) zs")
      case (Inl e)
      then show ?thesis
        unfolding list.map estimate_loop_Cons body estimate_1d_Cons
        using False by (simp add: Cons.IH del: One_nat_def)
    next
      case (Inr r)
      obtain xs Ps where r: "r = (xs, Ps)" by (cases r)
      show ?thesis
        unfolding list.map estimate_loop_Cons body estimate_1d_Cons
        using False by (simp add: Cons.IH Inr r del: One_nat_def)
    qed
  qed
qed

lemma estimate_as_mat:
  "estimate (as_mat M) [x] [[P]] (map (\<lambda>z. [z]) zs) =
     (case estimate_1d M x P zs of
        Inl e \<Rightarrow> Inl LinAlgError
      | Inr (xs, Ps) \<Rightarrow> Inr (map (\<lambda>x. [x]) xs, map (\<lambda>P. [[P]]) Ps))"
  using estimate_loop_as_mat [of M x P zs] by (simp add: estimate_def eye_def)

end
